theory Spec2Isabelle
  imports Main "HOL-Library.AList"
begin

section \<open>Exceptions, request outputs and the items of a stream's queue\<close>

text \<open>
  The exceptions that the modelled code raises, catches or hands to a stream. An exception
  class handed over in place of an instance (\<^verbatim>\<open>asyncio.CancelledError\<close>) is the same
  value here: \<^verbatim>\<open>_is_raisable\<close> accepts both. The module's private sentinel
  \<^verbatim>\<open>STOP_ITERATION = Exception()\<close> is not one of them: it is compared by identity and
  is a queue item of its own below.
\<close>

datatype exn =
    CancelledError
  | TimeoutError
  | ValueError string
  | KeyError string
  | AssertionError string
  | AsyncEngineDeadError string
  | RuntimeError string
  | IndexError
  | AttributeError

text \<open>
  A \<^verbatim>\<open>RequestOutput\<close> (or \<^verbatim>\<open>EmbeddingRequestOutput\<close>): the tracker reads
  \<^verbatim>\<open>request_id\<close> and \<^verbatim>\<open>finished\<close>; the rest is an opaque payload.
\<close>

record RequestOutput =
  out_request_id :: string
  out_finished :: bool
  out_payload :: string

datatype queue_item =
    Item RequestOutput
  | STOP_ITERATION
  | Raise exn

section \<open>AsyncStream\<close>

text \<open>
  \<^verbatim>\<open>_queue\<close> is an unbounded FIFO \<^verbatim>\<open>asyncio.Queue\<close>. The field \<open>queue\<close> holds
  every item enqueued so far, oldest first; the consumer reads that sequence from its head
  (\<open>generator\<close> below). \<^verbatim>\<open>_cancel\<close> is the tracker's \<^verbatim>\<open>abort_request\<close>, bound when
  the stream is created; it is only called on the consumer's \<^verbatim>\<open>GeneratorExit\<close>.
\<close>

record AsyncStream =
  request_id :: string
  queue :: "queue_item list"
  finished :: bool

definition AsyncStream_init :: "string \<Rightarrow> AsyncStream" where
  "AsyncStream_init rid = \<lparr>request_id = rid, queue = [], finished = False\<rparr>"

definition put :: "queue_item \<Rightarrow> AsyncStream \<Rightarrow> AsyncStream" where
  "put item s = (if \<not> finished s then s\<lparr>queue := queue s @ [item]\<rparr> else s)"

definition finish :: "exn option \<Rightarrow> AsyncStream \<Rightarrow> AsyncStream" where
  "finish exception s =
     (if \<not> finished s
      then s\<lparr>finished := True,
             queue := queue s @ [case exception of Some e \<Rightarrow> Raise e | None \<Rightarrow> STOP_ITERATION]\<rparr>
      else s)"

text \<open>
  The consumer side, \<^verbatim>\<open>AsyncStream.generator\<close>, run on the sequence of enqueued items:
  it yields each output, returns on the sentinel, raises a raisable item, and waits on
  \<^verbatim>\<open>queue.get()\<close> when the items are used up.
\<close>

datatype gen_outcome = Waiting | Returned | Raised exn

fun generator :: "queue_item list \<Rightarrow> RequestOutput list \<times> gen_outcome" where
  "generator [] = ([], Waiting)"
| "generator (Item x # q) = (x # fst (generator q), snd (generator q))"
| "generator (STOP_ITERATION # q) = ([], Returned)"
| "generator (Raise e # q) = ([], Raised e)"

text \<open>The producer's calls on one stream, and a sequence of them run in order.\<close>

datatype producer_call = Put queue_item | Finish "exn option"

fun call :: "producer_call \<Rightarrow> AsyncStream \<Rightarrow> AsyncStream" where
  "call (Put item) s = put item s"
| "call (Finish e) s = finish e s"

fun calls :: "producer_call list \<Rightarrow> AsyncStream \<Rightarrow> AsyncStream" where
  "calls [] s = s"
| "calls (c # cs) s = calls cs (call c s)"

text \<open>
  What the claim speaks of: the outputs put before the first \<open>Finish\<close>, and the
  terminator the first \<open>Finish\<close> asks for.
\<close>

fun is_output_call :: "producer_call \<Rightarrow> bool" where
  "is_output_call (Put (Item x)) = True"
| "is_output_call (Put _) = False"
| "is_output_call (Finish e) = True"

fun puts_before_finish :: "producer_call list \<Rightarrow> RequestOutput list" where
  "puts_before_finish [] = []"
| "puts_before_finish (Put (Item x) # cs) = x # puts_before_finish cs"
| "puts_before_finish (Put _ # cs) = puts_before_finish cs"
| "puts_before_finish (Finish e # cs) = []"

fun first_finish :: "producer_call list \<Rightarrow> gen_outcome" where
  "first_finish [] = Waiting"
| "first_finish (Put _ # cs) = first_finish cs"
| "first_finish (Finish None # cs) = Returned"
| "first_finish (Finish (Some e) # cs) = Raised e"

fun terminator_items :: "gen_outcome \<Rightarrow> queue_item list" where
  "terminator_items Waiting = []"
| "terminator_items Returned = [STOP_ITERATION]"
| "terminator_items (Raised e) = [Raise e]"

section \<open>RequestTracker\<close>

text \<open>
  The keyword arguments that \<^verbatim>\<open>AsyncAphrodite.add_request\<close> hands to the tracker, and the
  dictionary \<^verbatim>\<open>{"request_id": request_id, **engine_add_request_kwargs}\<close> queued for the
  engine. Prompts, parameters and adapter handles are opaque.
\<close>

record engine_add_request_kwargs =
  inputs :: string
  params :: string
  arrival_time :: "nat option"
  lora_request :: "string option"
  prompt_adapter_request :: "string option"

record new_request =
  nr_request_id :: string
  nr_kwargs :: engine_add_request_kwargs

text \<open>
  Streams are objects shared by the tracker's dictionary, its queue of new requests and
  the caller, so they live in a store: \<open>store t ! a\<close> is the stream at address \<open>a\<close>, and a
  new stream takes the next address. \<^verbatim>\<open>_request_streams\<close> is a Python \<^verbatim>\<open>dict\<close>, kept as
  an association list in insertion order (\<open>AList.update\<close> overwrites in place and appends
  a new key, \<open>AList.delete\<close> is \<^verbatim>\<open>pop\<close>). The two \<^verbatim>\<open>asyncio.Queue\<close>s are lists, oldest
  first.
\<close>

record RequestTracker =
  store :: "AsyncStream list"
  request_streams :: "(string \<times> nat) list"
  aborted_requests :: "string list"
  new_requests :: "(nat \<times> new_request) list"
  new_requests_event :: bool

definition RequestTracker_init :: "AsyncStream list \<Rightarrow> RequestTracker" where
  "RequestTracker_init h =
     \<lparr>store = h, request_streams = [], aborted_requests = [], new_requests = [],
      new_requests_event = False\<rparr>"

definition add_request ::
  "RequestTracker \<Rightarrow> string \<Rightarrow> engine_add_request_kwargs \<Rightarrow> exn + (nat \<times> RequestTracker)" where
  "add_request t rid kw =
     (if map_of (request_streams t) rid \<noteq> None
      then Inl (KeyError (''Request '' @ rid @ '' already exists.''))
      else Inr (length (store t),
             t\<lparr>store := store t @ [AsyncStream_init rid],
               new_requests := new_requests t @
                 [(length (store t), \<lparr>nr_request_id = rid, nr_kwargs = kw\<rparr>)],
               new_requests_event := True\<rparr>))"

definition abort_request :: "RequestTracker \<Rightarrow> string \<Rightarrow> exn option \<Rightarrow> RequestTracker" where
  "abort_request t rid exception =
     (case map_of (request_streams t) rid of
        None \<Rightarrow> t\<lparr>aborted_requests := aborted_requests t @ [rid]\<rparr>
      | Some a \<Rightarrow>
          t\<lparr>aborted_requests := aborted_requests t @ [rid],
            request_streams := AList.delete rid (request_streams t),
            store := (store t)[a := finish exception (store t ! a)]\<rparr>)"

definition process_request_output :: "RequestTracker \<Rightarrow> RequestOutput \<Rightarrow> RequestTracker" where
  "process_request_output t request_output =
     (case map_of (request_streams t) (out_request_id request_output) of
        None \<Rightarrow> t
      | Some a \<Rightarrow>
          if out_finished request_output
          then t\<lparr>request_streams := AList.delete (out_request_id request_output) (request_streams t),
                 store := (store t)[a := finish None (put (Item request_output) (store t ! a))]\<rparr>
          else t\<lparr>store := (store t)[a := put (Item request_output) (store t ! a)]\<rparr>)"

definition process_exception :: "RequestTracker \<Rightarrow> string \<Rightarrow> exn \<Rightarrow> RequestTracker" where
  "process_exception t rid exception = abort_request t rid (Some exception)"

definition propagate_exception :: "RequestTracker \<Rightarrow> exn \<Rightarrow> string option \<Rightarrow> RequestTracker" where
  "propagate_exception t exc rid_opt =
     (case rid_opt of
        Some rid \<Rightarrow> abort_request t rid (Some exc)
      | None \<Rightarrow> fold (\<lambda>rid t'. abort_request t' rid (Some exc)) (map fst (request_streams t)) t)"

text \<open>
  The two loops of \<^verbatim>\<open>get_new_and_aborted_requests\<close>: the first empties the queue of
  aborted ids into the set \<^verbatim>\<open>finished_requests\<close>; the second empties the queue of new
  requests, reading each stream's \<^verbatim>\<open>request_id\<close> from the stream object.
\<close>

fun drain_aborted :: "string list \<Rightarrow> string set \<Rightarrow> string set" where
  "drain_aborted [] finished_requests = finished_requests"
| "drain_aborted (rid # q) finished_requests = drain_aborted q (insert rid finished_requests)"

fun drain_new ::
  "(nat \<times> new_request) list \<Rightarrow> AsyncStream list \<Rightarrow> (string \<times> nat) list \<Rightarrow>
   new_request list \<Rightarrow> string set \<Rightarrow>
   AsyncStream list \<times> (string \<times> nat) list \<times> new_request list \<times> string set" where
  "drain_new [] h rs new fin = (h, rs, new, fin)"
| "drain_new ((a, nr) # q) h rs new fin =
     (if request_id (h ! a) \<in> fin
      then drain_new q (h[a := finish (Some CancelledError) (h ! a)]) rs new
             (fin - {request_id (h ! a)})
      else drain_new q h (AList.update (request_id (h ! a)) a rs) (new @ [nr]) fin)"

definition get_new_and_aborted_requests ::
  "RequestTracker \<Rightarrow> (new_request list \<times> string set) \<times> RequestTracker" where
  "get_new_and_aborted_requests t =
     (case drain_new (new_requests t) (store t) (request_streams t) []
             (drain_aborted (aborted_requests t) {}) of
        (h, rs, new, fin) \<Rightarrow>
          ((new, fin),
           t\<lparr>store := h, request_streams := rs, aborted_requests := [], new_requests := []\<rparr>))"

definition has_new_requests :: "RequestTracker \<Rightarrow> bool" where
  "has_new_requests t = (new_requests t \<noteq> [])"

text \<open>
  \<^verbatim>\<open>wait_for_new_requests\<close> waits on the event unless a new request is queued; \<open>None\<close> is
  the coroutine still waiting (no new request and the event not set).
\<close>

definition wait_for_new_requests :: "RequestTracker \<Rightarrow> RequestTracker option" where
  "wait_for_new_requests t =
     (if has_new_requests t \<or> new_requests_event t
      then Some (t\<lparr>new_requests_event := False\<rparr>)
      else None)"

text \<open>
  What Python gives for free and the store has to say: every reference held by the tracker
  points to a stream; a queued stream is as \<^verbatim>\<open>add_request\<close> made it (nothing was put, not
  finished) and its id is not registered; a stream is registered under its own id and leaves
  the dictionary when it is finished.
\<close>

definition wf_tracker :: "RequestTracker \<Rightarrow> bool" where
  "wf_tracker t =
     ((\<forall>(a, nr) \<in> set (new_requests t).
         a < length (store t) \<and> request_id (store t ! a) = nr_request_id nr
         \<and> \<not> finished (store t ! a) \<and> queue (store t ! a) = []
         \<and> map_of (request_streams t) (nr_request_id nr) = None)
      \<and> distinct (map fst (new_requests t))
      \<and> (\<forall>(rid, a) \<in> set (request_streams t).
         a < length (store t) \<and> request_id (store t ! a) = rid \<and> \<not> finished (store t ! a))
      \<and> distinct (map fst (request_streams t)))"

text \<open>The tracker's mutating methods as calls, to speak of every later use of a tracker.\<close>

datatype tracker_call =
    AddRequest string engine_add_request_kwargs
  | AbortRequest string "exn option"
  | ProcessRequestOutput RequestOutput
  | ProcessException string exn
  | PropagateException exn "string option"
  | GetNewAndAborted
  | WaitForNewRequests

fun run_call :: "tracker_call \<Rightarrow> RequestTracker \<Rightarrow> RequestTracker" where
  "run_call (AddRequest rid kw) t =
     (case add_request t rid kw of Inl e \<Rightarrow> t | Inr (a, t') \<Rightarrow> t')"
| "run_call (AbortRequest rid e) t = abort_request t rid e"
| "run_call (ProcessRequestOutput out) t = process_request_output t out"
| "run_call (ProcessException rid e) t = process_exception t rid e"
| "run_call (PropagateException e rid_opt) t = propagate_exception t e rid_opt"
| "run_call GetNewAndAborted t = snd (get_new_and_aborted_requests t)"
| "run_call WaitForNewRequests t =
     (case wait_for_new_requests t of None \<Rightarrow> t | Some t' \<Rightarrow> t')"

fun tracker_calls :: "tracker_call list \<Rightarrow> RequestTracker \<Rightarrow> RequestTracker" where
  "tracker_calls [] t = t"
| "tracker_calls (c # cs) t = tracker_calls cs (run_call c t)"

text \<open>
  The ids that the second loop of \<^verbatim>\<open>get_new_and_aborted_requests\<close> reads from the queued
  streams, and the queue's entries agreeing with the store (each entry's stream exists and
  carries the id of its request).
\<close>

definition store_ids :: "AsyncStream list \<Rightarrow> (nat \<times> new_request) list \<Rightarrow> string list" where
  "store_ids h q = map (\<lambda>(a, nr). request_id (h ! a)) q"

definition pend_ok :: "AsyncStream list \<Rightarrow> (nat \<times> new_request) list \<Rightarrow> bool" where
  "pend_ok h q = (\<forall>(b, n) \<in> set q. b < length h \<and> request_id (h ! b) = nr_request_id n)"

text \<open>
  Concrete trackers for the examples: one request submitted twice and then aborted before
  the engine loop drained it, and two requests of which the first is aborted.
\<close>

definition example_kwargs :: engine_add_request_kwargs where
  "example_kwargs =
     \<lparr>inputs = ''hi'', params = ''p'', arrival_time = Some 1, lora_request = None,
      prompt_adapter_request = None\<rparr>"

definition twice_then_abort :: RequestTracker where
  "twice_then_abort =
     tracker_calls [AddRequest ''r1'' example_kwargs, AddRequest ''r1'' example_kwargs,
                    AbortRequest ''r1'' (Some CancelledError)] (RequestTracker_init [])"

definition once_then_abort :: RequestTracker where
  "once_then_abort =
     tracker_calls [AddRequest ''r1'' example_kwargs, AddRequest ''r2'' example_kwargs,
                    AbortRequest ''r1'' (Some CancelledError)] (RequestTracker_init [])"

text \<open>An address is referenced when the tracker still holds the stream in a queue entry or
  in its dictionary.\<close>

definition referenced :: "RequestTracker \<Rightarrow> nat \<Rightarrow> bool" where
  "referenced t a = (a \<in> fst ` set (new_requests t) \<or> a \<in> snd ` set (request_streams t))"



section \<open>The engine: \<open>_AsyncAphrodite\<close>\<close>

text \<open>
  \<^verbatim>\<open>_AsyncAphrodite\<close> extends \<^verbatim>\<open>AphroditeEngine\<close>, whose code (schedulers, executor,
  tokenizer, output processor, sequence groups) is not part of the modelled sources. Its
  state is the opaque \<open>base\<close> of type \<open>'e\<close>, and what the modelled methods call on it is a
  record of functions, one field per method, named after it:
  \<^item> \<open>ext_schedule\<close>: \<^verbatim>\<open>self.scheduler[virtual_engine].schedule()\<close>;
  \<^item> \<open>ext_is_empty\<close>: \<^verbatim>\<open>scheduler_outputs.is_empty()\<close>;
  \<^item> \<open>ext_get_and_reset_finished_requests_ids\<close>, \<open>ext_execute_model_async\<close>,
    \<open>ext_process_model_outputs\<close>, \<open>ext_do_log_stats\<close>, \<open>ext_abort_request\<close>,
    \<open>ext_has_unfinished_requests_for_virtual_engine\<close>,
    \<open>ext_stop_remote_worker_execution_loop_async\<close>: the methods of those names;
  \<^item> \<open>ext_remaining_steps\<close> and \<open>ext_finish_step\<close>: \<^verbatim>\<open>seq_group.state.remaining_steps\<close> and
    \<^verbatim>\<open>seq_group.finish_step()\<close>; a \<^verbatim>\<open>SequenceGroupMetadata\<close> is an object of the base
    engine, referred to by a number, so that the cached list and the list of the running
    step are the same objects;
  \<^item> \<open>ext_process_model_inputs_async\<close> and \<open>ext_add_processed_request\<close>: the two calls that
    \<^verbatim>\<open>add_request_async\<close> makes after its own check (the first runs the tokenizer and the
    input processor).
  A call that raises returns \<open>Inl\<close>. Only the path with \<^verbatim>\<open>engine_use_ray = False\<close> is
  modelled.
\<close>

type_synonym tensor = "nat list"

record SamplerOutput =
  sampled_token_ids_cpu :: "tensor option"
  sampled_token_ids :: "tensor option"
  sampled_token_probs :: "tensor option"

record SchedulerOutputs =
  scheduled_seq_groups :: "nat list"
  ignored_seq_groups :: "nat list"
  num_lookahead_slots :: int
  running_queue_size :: int
  blocks_to_swap_in :: "(nat \<times> nat) list"
  blocks_to_swap_out :: "(nat \<times> nat) list"
  blocks_to_copy :: "(nat \<times> nat) list"

record ExecuteModelRequest =
  emr_seq_group_metadata_list :: "nat list"
  emr_blocks_to_swap_in :: "(nat \<times> nat) list"
  emr_blocks_to_swap_out :: "(nat \<times> nat) list"
  emr_blocks_to_copy :: "(nat \<times> nat) list"
  emr_virtual_engine :: nat
  emr_num_lookahead_slots :: int
  emr_running_queue_size :: int
  emr_finished_requests_ids :: "string list"
  emr_last_sampled_token_ids :: "tensor option"

record SchedulerOutputState =
  last_output :: "SamplerOutput option"
  seq_group_metadata_list :: "nat list option"
  scheduler_outputs :: "SchedulerOutputs option"

definition SchedulerOutputState_init :: SchedulerOutputState where
  "SchedulerOutputState_init =
     \<lparr>last_output = None, seq_group_metadata_list = None, scheduler_outputs = None\<rparr>"

record 'e AsyncEngine =
  base :: 'e
  lora_config :: "string option"
  is_multi_step :: bool
  pipeline_parallel_size :: nat
  cached_scheduler_outputs :: "SchedulerOutputState list"

record 'e ext =
  ext_schedule :: "'e \<Rightarrow> nat \<Rightarrow> exn + ((nat list \<times> SchedulerOutputs) \<times> 'e)"
  ext_is_empty :: "SchedulerOutputs \<Rightarrow> bool"
  ext_get_and_reset_finished_requests_ids :: "'e \<Rightarrow> nat \<Rightarrow> string list \<times> 'e"
  ext_execute_model_async :: "'e \<Rightarrow> ExecuteModelRequest \<Rightarrow> exn + (SamplerOutput option list \<times> 'e)"
  ext_remaining_steps :: "'e \<Rightarrow> nat \<Rightarrow> int"
  ext_finish_step :: "'e \<Rightarrow> nat \<Rightarrow> exn + 'e"
  ext_process_model_outputs ::
    "'e \<Rightarrow> SamplerOutput option list \<Rightarrow> nat list \<Rightarrow> nat list \<Rightarrow> nat list \<Rightarrow>
     exn + (RequestOutput list \<times> 'e)"
  ext_do_log_stats :: "'e \<Rightarrow> SchedulerOutputs \<Rightarrow> SamplerOutput option list \<Rightarrow> exn + 'e"
  ext_process_model_inputs_async ::
    "'e \<Rightarrow> string \<Rightarrow> string \<Rightarrow> string option \<Rightarrow> string option \<Rightarrow> exn + string"
  ext_add_processed_request ::
    "'e \<Rightarrow> string \<Rightarrow> string \<Rightarrow> string \<Rightarrow> nat \<Rightarrow> string option \<Rightarrow> string option \<Rightarrow> exn + 'e"
  ext_abort_request :: "'e \<Rightarrow> string set \<Rightarrow> 'e"
  ext_has_unfinished_requests_for_virtual_engine :: "'e \<Rightarrow> nat \<Rightarrow> bool"
  ext_stop_remote_worker_execution_loop_async :: "'e \<Rightarrow> exn + 'e"

definition AsyncEngine_init ::
  "'e \<Rightarrow> string option \<Rightarrow> bool \<Rightarrow> nat \<Rightarrow> 'e AsyncEngine" where
  "AsyncEngine_init b lc ms pp =
     \<lparr>base = b, lora_config = lc, is_multi_step = ms, pipeline_parallel_size = pp,
      cached_scheduler_outputs = replicate pp SchedulerOutputState_init\<rparr>"

text \<open>Python's \<^verbatim>\<open>xs[i]\<close> for an index that is not negative.\<close>

definition py_index :: "'a list \<Rightarrow> nat \<Rightarrow> exn + 'a" where
  "py_index xs i = (if i < length xs then Inr (xs ! i) else Inl IndexError)"

text \<open>\<^verbatim>\<open>_has_remaining_steps\<close>. \<^verbatim>\<open>not seq_group_metadata_list\<close> holds for \<^verbatim>\<open>None\<close> and for
  the empty list.\<close>

definition has_remaining_steps ::
  "'e ext \<Rightarrow> 'e AsyncEngine \<Rightarrow> nat list option \<Rightarrow> exn + bool" where
  "has_remaining_steps x eng sgml =
     (case sgml of
        None \<Rightarrow> Inr False
      | Some [] \<Rightarrow> Inr False
      | Some (g # gs) \<Rightarrow>
          if \<not> is_multi_step eng then Inr False
          else if list_ex (\<lambda>seq_group. ext_remaining_steps x (base eng) seq_group
                                        \<noteq> ext_remaining_steps x (base eng) g) gs
          then Inl (AssertionError
                 ''All running sequence groups should have the same remaining steps.'')
          else Inr (ext_remaining_steps x (base eng) g > 0))"

definition cache_scheduler_outputs_for_multi_step ::
  "'e AsyncEngine \<Rightarrow> nat \<Rightarrow> nat list \<Rightarrow> SchedulerOutputs \<Rightarrow> 'e AsyncEngine" where
  "cache_scheduler_outputs_for_multi_step eng ve sgml so =
     eng\<lparr>cached_scheduler_outputs := (cached_scheduler_outputs eng)
       [ve := (cached_scheduler_outputs eng ! ve)
          \<lparr>seq_group_metadata_list := Some sgml, scheduler_outputs := Some so,
           last_output := None\<rparr>]\<rparr>"

definition get_last_sampled_token_ids :: "'e AsyncEngine \<Rightarrow> nat \<Rightarrow> tensor option" where
  "get_last_sampled_token_ids eng ve =
     (case last_output (cached_scheduler_outputs eng ! ve) of
        Some cached_last_output \<Rightarrow>
          if is_multi_step eng \<and> pipeline_parallel_size eng > 1
             \<and> sampled_token_ids_cpu cached_last_output \<noteq> None
          then sampled_token_ids_cpu cached_last_output else None
      | None \<Rightarrow> None)"

definition update_cached_scheduler_output ::
  "'e AsyncEngine \<Rightarrow> nat \<Rightarrow> SamplerOutput option list \<Rightarrow> exn + 'e AsyncEngine" where
  "update_cached_scheduler_output eng ve output =
     (if pipeline_parallel_size eng > 1 \<and> length output > 0 \<and> hd output \<noteq> None
      then (case last output of
              None \<Rightarrow> Inl (AssertionError [])
            | Some lo \<Rightarrow>
                if sampled_token_ids_cpu lo = None \<or> sampled_token_ids lo \<noteq> None
                   \<or> sampled_token_probs lo \<noteq> None
                then Inl (AssertionError [])
                else Inr (eng\<lparr>cached_scheduler_outputs := (cached_scheduler_outputs eng)
                       [ve := (cached_scheduler_outputs eng ! ve)\<lparr>last_output := Some lo\<rparr>]\<rparr>))
      else Inr eng)"

text \<open>
  \<^verbatim>\<open>step_async\<close>, in the order of its body: take the cached batch or schedule a new one;
  run the model unless the scheduler's output is empty; finish the step of every sequence
  group (multi-step only); then either clear the cache and process the outputs, or return
  no outputs; log the statistics.
\<close>

definition step_async_schedule ::
  "'e ext \<Rightarrow> 'e AsyncEngine \<Rightarrow> nat \<Rightarrow> exn + (nat list \<times> SchedulerOutputs \<times> 'e AsyncEngine)" where
  "step_async_schedule x eng ve =
     (case py_index (cached_scheduler_outputs eng) ve of
        Inl e \<Rightarrow> Inl e
      | Inr cached_outputs \<Rightarrow>
          (case has_remaining_steps x eng (seq_group_metadata_list cached_outputs) of
             Inl e \<Rightarrow> Inl e
           | Inr True \<Rightarrow>
               (case seq_group_metadata_list cached_outputs of
                  None \<Rightarrow> Inl (AssertionError [])
                | Some sgml \<Rightarrow>
                    (case scheduler_outputs cached_outputs of
                       None \<Rightarrow> Inl (AssertionError [])
                     | Some so \<Rightarrow> Inr (sgml, so, eng)))
           | Inr False \<Rightarrow>
               (case ext_schedule x (base eng) ve of
                  Inl e \<Rightarrow> Inl e
                | Inr ((sgml, so), b) \<Rightarrow>
                    Inr (sgml, so,
                      if is_multi_step eng \<and> num_lookahead_slots so > 0
                      then cache_scheduler_outputs_for_multi_step (eng\<lparr>base := b\<rparr>) ve sgml so
                      else eng\<lparr>base := b\<rparr>))))"

definition step_async_execute ::
  "'e ext \<Rightarrow> 'e AsyncEngine \<Rightarrow> nat \<Rightarrow> nat list \<Rightarrow> SchedulerOutputs \<Rightarrow>
   exn + (SamplerOutput option list \<times> 'e AsyncEngine)" where
  "step_async_execute x eng ve sgml so =
     (if \<not> ext_is_empty x so
      then (case ext_get_and_reset_finished_requests_ids x (base eng) ve of
              (finished_requests_ids, b1) \<Rightarrow>
                (case ext_execute_model_async x b1
                        \<lparr>emr_seq_group_metadata_list = sgml,
                         emr_blocks_to_swap_in = blocks_to_swap_in so,
                         emr_blocks_to_swap_out = blocks_to_swap_out so,
                         emr_blocks_to_copy = blocks_to_copy so,
                         emr_virtual_engine = ve,
                         emr_num_lookahead_slots = num_lookahead_slots so,
                         emr_running_queue_size = running_queue_size so,
                         emr_finished_requests_ids = finished_requests_ids,
                         emr_last_sampled_token_ids = get_last_sampled_token_ids eng ve\<rparr> of
                   Inl e \<Rightarrow> Inl e
                 | Inr (output, b2) \<Rightarrow>
                     if is_multi_step eng
                     then (case update_cached_scheduler_output (eng\<lparr>base := b2\<rparr>) ve output of
                             Inl e \<Rightarrow> Inl e
                           | Inr eng' \<Rightarrow> Inr (output, eng'))
                     else Inr (output, eng\<lparr>base := b2\<rparr>)))
      else Inr ([], eng))"

fun finish_steps :: "'e ext \<Rightarrow> 'e \<Rightarrow> nat list \<Rightarrow> exn + 'e" where
  "finish_steps x b [] = Inr b"
| "finish_steps x b (seq_group # gs) =
     (case ext_finish_step x b seq_group of
        Inl e \<Rightarrow> Inl e
      | Inr b' \<Rightarrow> finish_steps x b' gs)"

definition step_async_finish_step ::
  "'e ext \<Rightarrow> 'e AsyncEngine \<Rightarrow> nat list \<Rightarrow> exn + 'e AsyncEngine" where
  "step_async_finish_step x eng sgml =
     (if is_multi_step eng
      then (case finish_steps x (base eng) sgml of
              Inl e \<Rightarrow> Inl e
            | Inr b \<Rightarrow> Inr (eng\<lparr>base := b\<rparr>))
      else Inr eng)"

definition step_async_outputs ::
  "'e ext \<Rightarrow> 'e AsyncEngine \<Rightarrow> nat \<Rightarrow> nat list \<Rightarrow> SchedulerOutputs \<Rightarrow>
   SamplerOutput option list \<Rightarrow> exn + (RequestOutput list \<times> 'e AsyncEngine)" where
  "step_async_outputs x eng ve sgml so output =
     (case has_remaining_steps x eng (Some sgml) of
        Inl e \<Rightarrow> Inl e
      | Inr False \<Rightarrow>
          (case ext_process_model_outputs x (base eng) output (scheduled_seq_groups so)
                  (ignored_seq_groups so) sgml of
             Inl e \<Rightarrow> Inl e
           | Inr (request_outputs, b) \<Rightarrow>
               Inr (request_outputs,
                 (if is_multi_step eng
                  then eng\<lparr>cached_scheduler_outputs :=
                         (cached_scheduler_outputs eng)[ve := SchedulerOutputState_init]\<rparr>
                  else eng)\<lparr>base := b\<rparr>))
      | Inr True \<Rightarrow> Inr ([], eng))"

definition step_async ::
  "'e ext \<Rightarrow> 'e AsyncEngine \<Rightarrow> nat \<Rightarrow> exn + (RequestOutput list \<times> 'e AsyncEngine)" where
  "step_async x eng ve =
     (case step_async_schedule x eng ve of
        Inl e \<Rightarrow> Inl e
      | Inr (sgml, so, eng1) \<Rightarrow>
          (case step_async_execute x eng1 ve sgml so of
             Inl e \<Rightarrow> Inl e
           | Inr (output, eng2) \<Rightarrow>
               (case step_async_finish_step x eng2 sgml of
                  Inl e \<Rightarrow> Inl e
                | Inr eng3 \<Rightarrow>
                    (case step_async_outputs x eng3 ve sgml so output of
                       Inl e \<Rightarrow> Inl e
                     | Inr (request_outputs, eng4) \<Rightarrow>
                         (case ext_do_log_stats x (base eng4) so output of
                            Inl e \<Rightarrow> Inl e
                          | Inr b \<Rightarrow> Inr (request_outputs, eng4\<lparr>base := b\<rparr>))))))"

text \<open>
  \<^verbatim>\<open>add_request_async\<close>: the adapter check comes first and raises \<^verbatim>\<open>ValueError\<close>;
  \<open>now\<close> is \<^verbatim>\<open>time.time()\<close>. A call of the base engine that raises leaves the engine as
  it was.
\<close>

definition add_request_async ::
  "'e ext \<Rightarrow> 'e AsyncEngine \<Rightarrow> nat \<Rightarrow> new_request \<Rightarrow> exn + 'e AsyncEngine" where
  "add_request_async x eng now nr =
     (case lora_request (nr_kwargs nr) of
        Some l \<Rightarrow>
          if lora_config eng = None
          then Inl (ValueError (''Got lora_request '' @ l @ '' but LoRA is not enabled!''))
          else (case ext_process_model_inputs_async x (base eng) (inputs (nr_kwargs nr))
                        (nr_request_id nr) (Some l) (prompt_adapter_request (nr_kwargs nr)) of
                  Inl e \<Rightarrow> Inl e
                | Inr processed_inputs \<Rightarrow>
                    (case ext_add_processed_request x (base eng) (nr_request_id nr)
                            processed_inputs (params (nr_kwargs nr))
                            (case arrival_time (nr_kwargs nr) of None \<Rightarrow> now | Some a \<Rightarrow> a)
                            (Some l) (prompt_adapter_request (nr_kwargs nr)) of
                       Inl e \<Rightarrow> Inl e
                     | Inr b \<Rightarrow> Inr (eng\<lparr>base := b\<rparr>)))
      | None \<Rightarrow>
          (case ext_process_model_inputs_async x (base eng) (inputs (nr_kwargs nr))
                  (nr_request_id nr) None (prompt_adapter_request (nr_kwargs nr)) of
             Inl e \<Rightarrow> Inl e
           | Inr processed_inputs \<Rightarrow>
               (case ext_add_processed_request x (base eng) (nr_request_id nr)
                       processed_inputs (params (nr_kwargs nr))
                       (case arrival_time (nr_kwargs nr) of None \<Rightarrow> now | Some a \<Rightarrow> a)
                       None (prompt_adapter_request (nr_kwargs nr)) of
                  Inl e \<Rightarrow> Inl e
                | Inr b \<Rightarrow> Inr (eng\<lparr>base := b\<rparr>))))"

section \<open>\<open>AsyncAphrodite.engine_step\<close>\<close>

text \<open>
  \<^verbatim>\<open>engine_step\<close> is a coroutine, and the loop runs it as a task of its own
  (\<^verbatim>\<open>asyncio.create_task(self.engine_step(ve))\<close>): it runs until it awaits something that
  is not ready, other tasks run meanwhile, and it is resumed later. So a step task is
  \<open>Created\<close> (its body has not started), or suspended in one of the awaits of its body, or
  done with the returned flag or with the exception that escaped. The task is suspended
  either as \<open>AddRequestAsync new_request rest aborted\<close>, in
  \<^verbatim>\<open>await self.engine.add_request_async(**new_request)\<close>, holding the requests still to add
  and the drained set of aborted ids (the locals of the coroutine), or as \<open>StepAsync\<close>, in
  \<^verbatim>\<open>await self.engine.step_async(virtual_engine)\<close>. In
  \<^verbatim>\<open>await self._engine_abort(aborted_requests)\<close> nothing is awaited when the engine is not
  a Ray actor, so the task does not give way there.
\<close>

datatype engine_step_task =
    Created
  | AddRequestAsync new_request "new_request list" "string set"
  | StepAsync
  | TaskDone "exn + bool"

fun step_done :: "engine_step_task \<Rightarrow> bool" where
  "step_done (TaskDone result) = True"
| "step_done task = False"

text \<open>
  \<^verbatim>\<open>add_request_async\<close> up to its first \<^verbatim>\<open>await\<close>: the adapter check. Awaiting a coroutine
  runs its body at once, so this part runs in the same turn as the code before the
  \<^verbatim>\<open>await\<close> in \<^verbatim>\<open>engine_step\<close>. The task gives way in
  \<^verbatim>\<open>await self.process_model_inputs_async(...)\<close>, which awaits the tokenizer; when it is
  resumed the call completes as \<open>add_request_async\<close> says, on the engine as it is then (the
  check passes again: nothing assigns \<^verbatim>\<open>lora_config\<close>). Whether an \<^verbatim>\<open>await\<close> really
  hands the turn to another task depends on what is awaited; the model lets the task give
  way at each of the two, and a turn that follows with nothing called between is the run
  without a switch.
\<close>

definition add_request_async_start :: "'e AsyncEngine \<Rightarrow> new_request \<Rightarrow> exn + unit" where
  "add_request_async_start eng nr =
     (case lora_request (nr_kwargs nr) of
        Some l \<Rightarrow>
          if lora_config eng = None
          then Inl (ValueError (''Got lora_request '' @ l @ '' but LoRA is not enabled!''))
          else Inr ()
      | None \<Rightarrow> Inr ())"

text \<open>
  The \<^verbatim>\<open>for new_request in new_requests\<close> loop of \<^verbatim>\<open>engine_step\<close> from the requests still
  to add, up to the next point where the task gives way. A \<^verbatim>\<open>ValueError\<close> goes to
  \<^verbatim>\<open>process_exception\<close> and the loop goes on; any other exception leaves the loop and
  \<^verbatim>\<open>engine_step\<close>. After the last request the aborted ids, if any, are passed to the
  engine and \<^verbatim>\<open>step_async\<close> is awaited.
\<close>

fun add_new_requests ::
  "'e ext \<Rightarrow> 'e AsyncEngine \<Rightarrow> new_request list \<Rightarrow> string set \<Rightarrow> RequestTracker \<Rightarrow>
   engine_step_task \<times> 'e AsyncEngine \<times> RequestTracker" where
  "add_new_requests x eng [] aborted t =
     (StepAsync,
      if aborted \<noteq> {} then eng\<lparr>base := ext_abort_request x (base eng) aborted\<rparr> else eng,
      t)"
| "add_new_requests x eng (new_request # rest) aborted t =
     (case add_request_async_start eng new_request of
        Inl (ValueError m) \<Rightarrow>
          add_new_requests x eng rest aborted
            (process_exception t (nr_request_id new_request) (ValueError m))
      | Inl e \<Rightarrow> (TaskDone (Inl e), eng, t)
      | Inr u \<Rightarrow> (AddRequestAsync new_request rest aborted, eng, t))"

text \<open>
  One turn of the task \<^verbatim>\<open>engine_step(virtual_engine)\<close>: from where it stands to the next
  point where it gives way, on the engine and the tracker as they are when it gets the
  turn. A created task drains the tracker first. A task resumed in \<^verbatim>\<open>add_request_async\<close>
  gets the outcome of that call: the request is added, or a \<^verbatim>\<open>ValueError\<close> is routed to
  \<^verbatim>\<open>process_exception\<close>, and the loop over the new requests goes on; any other exception
  ends the task. A task resumed in \<^verbatim>\<open>step_async\<close> puts the outputs into the streams and
  returns whether some output is unfinished. \<^verbatim>\<open>step_async\<close> is run as a whole at that
  turn: its one \<^verbatim>\<open>await\<close> is the model executor's, and it neither reads nor writes the
  tracker. A call of the base engine that raises leaves the engine as it was.
\<close>

definition engine_step ::
  "'e ext \<Rightarrow> nat \<Rightarrow> nat \<Rightarrow> engine_step_task \<Rightarrow> 'e AsyncEngine \<Rightarrow> RequestTracker \<Rightarrow>
   engine_step_task \<times> 'e AsyncEngine \<times> RequestTracker" where
  "engine_step x now virtual_engine task eng t =
     (case task of
        Created \<Rightarrow>
          (case get_new_and_aborted_requests t of
             ((new_reqs, aborted), t1) \<Rightarrow> add_new_requests x eng new_reqs aborted t1)
      | AddRequestAsync new_request rest aborted \<Rightarrow>
          (case add_request_async x eng now new_request of
             Inl (ValueError m) \<Rightarrow>
               add_new_requests x eng rest aborted
                 (process_exception t (nr_request_id new_request) (ValueError m))
           | Inl e \<Rightarrow> (TaskDone (Inl e), eng, t)
           | Inr eng1 \<Rightarrow> add_new_requests x eng1 rest aborted t)
      | StepAsync \<Rightarrow>
          (case step_async x eng virtual_engine of
             Inl e \<Rightarrow> (TaskDone (Inl e), eng, t)
           | Inr (request_outputs, eng1) \<Rightarrow>
               (TaskDone (Inr (\<not> list_all out_finished request_outputs)), eng1,
                fold (\<lambda>request_output t'. process_request_output t' request_output)
                  request_outputs t))
      | TaskDone result \<Rightarrow> (TaskDone result, eng, t))"

text \<open>
  A small base engine for the examples. Its state is the list of the remaining steps of its
  sequence groups; the scheduler always schedules groups 0 and 1 with one lookahead slot, the
  model returns one sampler output, \<open>finish_step\<close> counts a group's remaining steps down, the
  output processor makes one finished output for \<open>r1\<close>, and the input processor rejects the
  prompt \<open>bad\<close> with a \<open>ValueError\<close>.
\<close>

definition example_scheduler_outputs :: SchedulerOutputs where
  "example_scheduler_outputs =
     \<lparr>scheduled_seq_groups = [0, 1], ignored_seq_groups = [], num_lookahead_slots = 1,
      running_queue_size = 2, blocks_to_swap_in = [], blocks_to_swap_out = [],
      blocks_to_copy = []\<rparr>"

definition example_sampler_output :: SamplerOutput where
  "example_sampler_output =
     \<lparr>sampled_token_ids_cpu = Some [7], sampled_token_ids = None, sampled_token_probs = None\<rparr>"

definition example_request_output :: RequestOutput where
  "example_request_output = \<lparr>out_request_id = ''r1'', out_finished = True, out_payload = ''A''\<rparr>"

definition example_ext :: "int list ext" where
  "example_ext =
     \<lparr>ext_schedule = (\<lambda>b ve. Inr (([0, 1], example_scheduler_outputs), b)),
      ext_is_empty = (\<lambda>so. scheduled_seq_groups so = []),
      ext_get_and_reset_finished_requests_ids = (\<lambda>b ve. ([], b)),
      ext_execute_model_async = (\<lambda>b req. Inr ([Some example_sampler_output], b)),
      ext_remaining_steps = (\<lambda>b g. if g < length b then b ! g else 0),
      ext_finish_step = (\<lambda>b g. Inr (b[g := b ! g - 1])),
      ext_process_model_outputs = (\<lambda>b out sched ign sgml. Inr ([example_request_output], b)),
      ext_do_log_stats = (\<lambda>b so out. Inr b),
      ext_process_model_inputs_async =
        (\<lambda>b inp rid l pa. if inp = ''bad'' then Inl (ValueError ''bad'') else Inr inp),
      ext_add_processed_request = (\<lambda>b rid inp par arr l pa. Inr b),
      ext_abort_request = (\<lambda>b ids. b),
      ext_has_unfinished_requests_for_virtual_engine = (\<lambda>b ve. False),
      ext_stop_remote_worker_execution_loop_async = (\<lambda>b. Inr b)\<rparr>"

definition example_engine :: "int list AsyncEngine" where
  "example_engine = AsyncEngine_init [2, 2] None True 1"

text \<open>The example engine after its first schedule: the batch is cached.\<close>

definition example_engine_cached :: "int list AsyncEngine" where
  "example_engine_cached =
     example_engine\<lparr>cached_scheduler_outputs :=
       [\<lparr>last_output = None, seq_group_metadata_list = Some [0, 1],
         scheduler_outputs = Some example_scheduler_outputs\<rparr>]\<rparr>"



section \<open>\<open>AsyncAphrodite\<close>: the background loop and the public methods\<close>



text \<open>
  The state of the task that runs \<^verbatim>\<open>run_engine_loop\<close>: not done, cancelled, or finished
  with an exception (the loop has no \<^verbatim>\<open>return\<close>). \<^verbatim>\<open>background_loop\<close> is the shield around
  the same task.
\<close>

datatype task = PENDING | CANCELLED | FAILED exn

definition task_done :: "task \<Rightarrow> bool" where
  "task_done task = (task \<noteq> PENDING)"

record 'e AsyncAphrodite =
  engine :: "'e AsyncEngine"
  background_loop :: "task option"
  background_loop_unshielded :: "task option"
  start_engine_loop :: bool
  errored_with :: "exn option"
  request_tracker :: "RequestTracker option"

definition AsyncAphrodite_init :: "'e AsyncEngine \<Rightarrow> bool \<Rightarrow> 'e AsyncAphrodite" where
  "AsyncAphrodite_init eng start =
     \<lparr>engine = eng, background_loop = None, background_loop_unshielded = None,
      start_engine_loop = start, errored_with = None, request_tracker = None\<rparr>"

definition is_running :: "'e AsyncAphrodite \<Rightarrow> bool" where
  "is_running self =
     (background_loop self \<noteq> None
      \<and> (case background_loop_unshielded self of None \<Rightarrow> False | Some task \<Rightarrow> \<not> task_done task))"

definition errored :: "'e AsyncAphrodite \<Rightarrow> bool" where
  "errored self = (errored_with self \<noteq> None)"

definition is_stopped :: "'e AsyncAphrodite \<Rightarrow> bool" where
  "is_stopped self =
     (errored self
      \<or> (background_loop self \<noteq> None
         \<and> (case background_loop_unshielded self of None \<Rightarrow> False | Some task \<Rightarrow> task_done task)))"



text \<open>
  \<^verbatim>\<open>start_background_loop\<close>. The new \<^verbatim>\<open>RequestTracker()\<close> starts empty; the streams of an
  earlier tracker stay in the store, where their callers hold them.
\<close>

definition start_background_loop :: "'e AsyncAphrodite \<Rightarrow> exn + 'e AsyncAphrodite" where
  "start_background_loop self =
     (if errored self then Inl (AsyncEngineDeadError ''Background loop has errored already.'')
      else if is_running self then Inl (RuntimeError ''Background loop is already running.'')
      else Inr (self\<lparr>request_tracker :=
                     Some (RequestTracker_init
                       (case request_tracker self of None \<Rightarrow> [] | Some t \<Rightarrow> store t)),
                   background_loop_unshielded := Some PENDING,
                   background_loop := Some PENDING\<rparr>))"

text \<open>
  \<^verbatim>\<open>shutdown_background_loop\<close> cancels the task and drops both references. The cancelled
  task's completion callback (\<open>log_task_completion\<close> below) only logs.
\<close>

definition shutdown_background_loop :: "'e AsyncAphrodite \<Rightarrow> 'e AsyncAphrodite" where
  "shutdown_background_loop self =
     self\<lparr>background_loop_unshielded := None, background_loop := None\<rparr>"

definition not_running_message :: string where
  "not_running_message =
     ''Background loop is not running. If it was running, inspect the output to find the stacktrace of the error that caused the background loop to stop (AsyncEngineDeadError).''"

text \<open>
  \<^verbatim>\<open>AsyncAphrodite.add_request\<close> (the spec's \<open>submit\<close>). The result is the exception raised or
  the address of the stream whose generator is returned, with the supervisor as the call
  left it. \<^verbatim>\<open>arrival_time or time.time()\<close> takes the clock for \<^verbatim>\<open>None\<close> and for zero.
\<close>

definition AsyncAphrodite_add_request ::
  "nat \<Rightarrow> 'e AsyncAphrodite \<Rightarrow> string \<Rightarrow> string \<Rightarrow> string \<Rightarrow> nat option \<Rightarrow> string option \<Rightarrow>
   string option \<Rightarrow> (exn + nat) \<times> 'e AsyncAphrodite" where
  "AsyncAphrodite_add_request now self rid inp par arrival lora pa =
     (case (if \<not> is_running self
            then (if start_engine_loop self then start_background_loop self
                  else Inl (AsyncEngineDeadError not_running_message))
            else Inr self) of
        Inl e \<Rightarrow> (Inl e, self)
      | Inr self1 \<Rightarrow>
          (case request_tracker self1 of
             None \<Rightarrow> (Inl AttributeError, self1)
           | Some t \<Rightarrow>
               (case add_request t rid
                       \<lparr>inputs = inp, params = par,
                        arrival_time =
                          Some (case arrival of None \<Rightarrow> now
                                | Some a \<Rightarrow> if a = 0 then now else a),
                        lora_request = lora, prompt_adapter_request = pa\<rparr> of
                  Inl e \<Rightarrow> (Inl e, self1)
                | Inr (a, t') \<Rightarrow> (Inr a, self1\<lparr>request_tracker := Some t'\<rparr>))))"

definition AsyncAphrodite_abort ::
  "'e AsyncAphrodite \<Rightarrow> string \<Rightarrow> (exn + unit) \<times> 'e AsyncAphrodite" where
  "AsyncAphrodite_abort self rid =
     (if \<not> is_running self then (Inl (AsyncEngineDeadError not_running_message), self)
      else (case request_tracker self of
              None \<Rightarrow> (Inl AttributeError, self)
            | Some t \<Rightarrow>
                (Inr (), self\<lparr>request_tracker := Some (abort_request t rid (Some CancelledError))\<rparr>)))"

text \<open>
  While the loop is suspended other tasks get their turns: a step task runs from where it
  stands to the next point where it gives way (\<open>Resumes\<close>, with the virtual engine), or a
  caller's task calls \<^verbatim>\<open>add_request\<close> or \<^verbatim>\<open>abort\<close> on the supervisor. The step tasks are
  the list \<^verbatim>\<open>requests_in_progress\<close>. The tracker exists whenever a step task does (the
  loop has waited on it before it creates one); without it the task's access to
  \<^verbatim>\<open>self._request_tracker\<close> raises.
\<close>

datatype task_turn =
    Resumes nat
  | Submits string string string "nat option" "string option" "string option"
  | Aborts string

fun run_turn ::
  "'e ext \<Rightarrow> nat \<Rightarrow> task_turn \<Rightarrow> 'e AsyncAphrodite \<times> engine_step_task list \<Rightarrow>
   'e AsyncAphrodite \<times> engine_step_task list" where
  "run_turn x now (Resumes virtual_engine) (self, requests_in_progress) =
     (if virtual_engine < length requests_in_progress
         \<and> \<not> step_done (requests_in_progress ! virtual_engine)
      then (case request_tracker self of
              None \<Rightarrow>
                (self, requests_in_progress[virtual_engine := TaskDone (Inl AttributeError)])
            | Some t \<Rightarrow>
                (case engine_step x now virtual_engine (requests_in_progress ! virtual_engine)
                        (engine self) t of
                   (task, eng, t') \<Rightarrow>
                     (self\<lparr>engine := eng, request_tracker := Some t'\<rparr>,
                      requests_in_progress[virtual_engine := task])))
      else (self, requests_in_progress))"
| "run_turn x now (Submits rid inp par arrival lora pa) (self, requests_in_progress) =
     (snd (AsyncAphrodite_add_request now self rid inp par arrival lora pa),
      requests_in_progress)"
| "run_turn x now (Aborts rid) (self, requests_in_progress) =
     (snd (AsyncAphrodite_abort self rid), requests_in_progress)"

definition run_turns ::
  "'e ext \<Rightarrow> nat \<Rightarrow> task_turn list \<Rightarrow> 'e AsyncAphrodite \<times> engine_step_task list \<Rightarrow>
   'e AsyncAphrodite \<times> engine_step_task list" where
  "run_turns x now turns state = fold (run_turn x now) turns state"










text \<open>A supervisor whose background loop is running, over the example engine.\<close>

definition running_supervisor :: "int list AsyncAphrodite" where
  "running_supervisor =
     \<lparr>engine = example_engine, background_loop = Some PENDING,
      background_loop_unshielded = Some PENDING, start_engine_loop = True,
      errored_with = None, request_tracker = Some (RequestTracker_init [])\<rparr>"





text \<open>
  A tracker after a step task has drained one submission of \<open>r1\<close>: the stream is
  registered.
\<close>

definition r1_registered :: RequestTracker where
  "r1_registered =
     \<lparr>store = [AsyncStream_init ''r1''], request_streams = [(''r1'', 0)], aborted_requests = [],
      new_requests = [], new_requests_event = True\<rparr>"

text \<open>
  The tracker of \<open>running_supervisor\<close> after a submit of \<open>r1\<close> that supplies an adapter, at
  time 5.
\<close>

definition adapter_request :: new_request where
  "adapter_request =
     \<lparr>nr_request_id = ''r1'',
      nr_kwargs = \<lparr>inputs = ''hi'', params = ''p'', arrival_time = Some 5,
                   lora_request = Some ''adapter'', prompt_adapter_request = None\<rparr>\<rparr>"

definition adapter_submitted :: RequestTracker where
  "adapter_submitted =
     \<lparr>store = [AsyncStream_init ''r1''], request_streams = [], aborted_requests = [],
      new_requests = [(0, adapter_request)], new_requests_event = True\<rparr>"


section \<open>Proofs: AsyncStream\<close>

lemma finish_finished: "finished s \<Longrightarrow> finish e s = s"
  by (simp add: finish_def)

lemma put_finished: "finished s \<Longrightarrow> put x s = s"
  by (simp add: put_def)

lemma finished_finish: "finished (finish e s)"
  by (simp add: finish_def)

lemma calls_finished: "finished s \<Longrightarrow> calls cs s = s"
proof (induction cs)
  case Nil
  show ?case by simp
next
  case (Cons c cs)
  then show ?case by (cases c) (simp_all add: finish_finished put_finished)
qed

lemma generator_outputs:
  "generator (map Item xs @ q) = (xs @ fst (generator q), snd (generator q))"
  by (induction xs) simp_all

lemma generator_terminated:
  "generator (map Item xs @ terminator_items r) = (xs, r)"
  using generator_outputs [of xs "terminator_items r"] by (cases r) simp_all

lemma calls_queue:
  assumes "\<forall>c \<in> set cs. is_output_call c" and "\<not> finished s"
  shows "queue (calls cs s) =
           queue s @ map Item (puts_before_finish cs) @ terminator_items (first_finish cs)
         \<and> finished (calls cs s) = (first_finish cs \<noteq> Waiting)
         \<and> request_id (calls cs s) = request_id s"
  using assms
proof (induction cs arbitrary: s)
  case Nil
  then show ?case by simp
next
  case (Cons c cs)
  show ?case
  proof (cases c)
    case (Put item)
    with Cons.prems obtain x where item: "item = Item x"
      by (cases item) simp_all
    have nf: "\<not> finished (put item s)"
      using Cons.prems by (simp add: put_def)
    have "\<forall>c \<in> set cs. is_output_call c"
      using Cons.prems by simp
    from Cons.IH [OF this nf] show ?thesis
      using Cons.prems Put item by (simp add: put_def)
  next
    case (Finish e)
    have "calls cs (finish e s) = finish e s"
      by (rule calls_finished) (rule finished_finish)
    then show ?thesis
      using Cons.prems Finish by (cases e) (simp_all add: finish_def)
  qed
qed

text \<open>
  C2. For every stream, from its creation, and every sequence of \<open>put\<close> and \<open>finish\<close> calls
  whose puts carry outputs: the queue is the outputs put before the first finish, in order,
  followed by one terminator exactly when a finish was called; the consumer observes those
  outputs and then that terminator (a clean return for \<open>finish()\<close>, the error for
  \<open>finish(e)\<close>), or waits when no finish was called; a second finish and a put after a finish
  leave the stream as it is.
\<close>

theorem C2_stream_fifo_single_terminator:
  assumes "\<forall>c \<in> set cs. is_output_call c"
  shows "queue (calls cs (AsyncStream_init rid)) =
           map Item (puts_before_finish cs) @ terminator_items (first_finish cs)
         \<and> generator (queue (calls cs (AsyncStream_init rid))) =
             (puts_before_finish cs, first_finish cs)
         \<and> finished (calls cs (AsyncStream_init rid)) = (first_finish cs \<noteq> Waiting)
         \<and> finish e2 (finish e1 s) = finish e1 s
         \<and> put x (finish e1 s) = finish e1 s"
proof -
  have nf: "\<not> finished (AsyncStream_init rid)"
    by (simp add: AsyncStream_init_def)
  have q: "queue (AsyncStream_init rid) = []"
    by (simp add: AsyncStream_init_def)
  note cq = calls_queue [OF assms nf]
  have 1: "queue (calls cs (AsyncStream_init rid)) =
           map Item (puts_before_finish cs) @ terminator_items (first_finish cs)"
    using cq q by simp
  have 2: "generator (queue (calls cs (AsyncStream_init rid))) =
             (puts_before_finish cs, first_finish cs)"
    by (simp only: 1 generator_terminated)
  have 3: "finished (calls cs (AsyncStream_init rid)) = (first_finish cs \<noteq> Waiting)"
    using cq by simp
  have 4: "finish e2 (finish e1 s) = finish e1 s"
    by (rule finish_finished) (rule finished_finish)
  have 5: "put x (finish e1 s) = finish e1 s"
    by (rule put_finished) (rule finished_finish)
  from 1 2 3 4 5 show ?thesis by simp
qed

theorem C2_stream_witness:
  "generator (queue (calls
      [Put (Item \<lparr>out_request_id = ''r1'', out_finished = False, out_payload = ''A''\<rparr>),
       Put (Item \<lparr>out_request_id = ''r1'', out_finished = True, out_payload = ''B''\<rparr>),
       Finish None,
       Put (Item \<lparr>out_request_id = ''r1'', out_finished = False, out_payload = ''Z''\<rparr>),
       Finish (Some CancelledError)]
      (AsyncStream_init ''r1''))) =
    ([\<lparr>out_request_id = ''r1'', out_finished = False, out_payload = ''A''\<rparr>,
      \<lparr>out_request_id = ''r1'', out_finished = True, out_payload = ''B''\<rparr>], Returned)"
  using C2_stream_fifo_single_terminator [of
      "[Put (Item \<lparr>out_request_id = ''r1'', out_finished = False, out_payload = ''A''\<rparr>),
        Put (Item \<lparr>out_request_id = ''r1'', out_finished = True, out_payload = ''B''\<rparr>),
        Finish None,
        Put (Item \<lparr>out_request_id = ''r1'', out_finished = False, out_payload = ''Z''\<rparr>),
        Finish (Some CancelledError)]" "''r1''"]
  by (simp add: put_def finish_def AsyncStream_init_def)

section \<open>Proofs: RequestTracker\<close>

lemma drain_aborted_set: "drain_aborted q F = set q \<union> F"
  by (induction q arbitrary: F) auto

lemma request_id_finish [simp]: "request_id (finish e s) = request_id s"
  by (simp add: finish_def)

lemma request_id_put [simp]: "request_id (put x s) = request_id s"
  by (simp add: put_def)

lemma request_id_upd_finish:
  "request_id ((h[a := finish e (h ! a)]) ! b) = request_id (h ! b)"
  by (cases "a < length h"; cases "b = a") (simp_all add: list_update_beyond)

lemma store_ids_upd_finish:
  "store_ids (h[a := finish e (h ! a)]) q = store_ids h q"
  by (simp add: store_ids_def request_id_upd_finish)

lemma drain_new_fin:
  "snd (snd (snd (drain_new q h rs new fin))) = fin - set (store_ids h q)"
proof (induction q arbitrary: h rs new fin)
  case Nil
  show ?case by (simp add: store_ids_def)
next
  case (Cons p q)
  obtain a nr where p: "p = (a, nr)" by (cases p)
  show ?case
    unfolding p using Cons.IH
    by (auto simp: store_ids_upd_finish) (auto simp: store_ids_def)
qed

lemma drain_new_store_notin:
  "b \<notin> fst ` set q \<Longrightarrow> fst (drain_new q h rs new fin) ! b = h ! b"
proof (induction q arbitrary: h rs new fin)
  case Nil
  show ?case by simp
next
  case (Cons p q)
  obtain a nr where p: "p = (a, nr)" by (cases p)
  from Cons.prems p have ne: "a \<noteq> b" and nin: "b \<notin> fst ` set q" by auto
  show ?case
    unfolding p using Cons.IH [OF nin] ne by simp
qed

lemma drain_new_length: "length (fst (drain_new q h rs new fin)) = length h"
  by (induction q arbitrary: h rs new fin) auto

lemma pend_ok_Cons:
  "pend_ok h ((a, nr) # q) = (a < length h \<and> request_id (h ! a) = nr_request_id nr \<and> pend_ok h q)"
  by (auto simp: pend_ok_def)

lemma pend_ok_upd_finish: "pend_ok h q \<Longrightarrow> pend_ok (h[a := finish e (h ! a)]) q"
  by (auto simp: pend_ok_def request_id_upd_finish)

lemma drain_new_other:
  assumes "drain_new q h rs new fin = (h', rs', new', fin')"
    and "pend_ok h q"
    and "\<forall>(b, n) \<in> set q. nr_request_id n \<noteq> rid"
  shows "map_of rs' rid = map_of rs rid
         \<and> (\<forall>n \<in> set new'. nr_request_id n = rid \<longrightarrow> n \<in> set new)
         \<and> (rid \<in> fin') = (rid \<in> fin)"
  using assms
proof (induction q arbitrary: h rs new fin)
  case Nil
  then show ?case by simp
next
  case (Cons p q)
  obtain a nr where p: "p = (a, nr)" by (cases p)
  from Cons.prems(2) p have a: "request_id (h ! a) = nr_request_id nr" and ok: "pend_ok h q"
    by (simp_all add: pend_ok_Cons)
  from Cons.prems(3) p have ne: "nr_request_id nr \<noteq> rid"
    and rest: "\<forall>(b, n) \<in> set q. nr_request_id n \<noteq> rid" by auto
  show ?case
  proof (cases "request_id (h ! a) \<in> fin")
    case True
    with Cons.prems(1) p
    have d: "drain_new q (h[a := finish (Some CancelledError) (h ! a)]) rs new
               (fin - {request_id (h ! a)}) = (h', rs', new', fin')" by simp
    from Cons.IH [OF d pend_ok_upd_finish [OF ok] rest] a ne show ?thesis by auto
  next
    case False
    with Cons.prems(1) p
    have d: "drain_new q h (AList.update (request_id (h ! a)) a rs) (new @ [nr]) fin
               = (h', rs', new', fin')" by simp
    from Cons.IH [OF d ok rest] a ne show ?thesis by (auto simp: update_conv')
  qed
qed

lemma drain_new_abort_wins:
  assumes "drain_new q h rs new fin = (h', rs', new', fin')"
    and "pend_ok h q"
    and "distinct (map fst q)"
    and "(a, nr) \<in> set q" and "rid \<in> fin" and "nr_request_id nr = rid"
    and "\<forall>(b, n) \<in> set q. nr_request_id n = rid \<longrightarrow> b = a"
  shows "h' ! a = finish (Some CancelledError) (h ! a)
         \<and> map_of rs' rid = map_of rs rid
         \<and> (\<forall>n \<in> set new'. nr_request_id n = rid \<longrightarrow> n \<in> set new)
         \<and> rid \<notin> fin'"
  using assms
proof (induction q arbitrary: h rs new fin)
  case Nil
  then show ?case by simp
next
  case (Cons p q)
  obtain b n where p: "p = (b, n)" by (cases p)
  from Cons.prems(2) p have b: "b < length h" "request_id (h ! b) = nr_request_id n"
    and ok: "pend_ok h q"
    by (simp_all add: pend_ok_Cons)
  from Cons.prems(3) p have bq: "b \<notin> fst ` set q" and dq: "distinct (map fst q)" by auto
  show ?case
  proof (cases "b = a")
    case True
    with Cons.prems(3,4) p have n: "n = nr"
      by (auto simp: image_iff)
    with b Cons.prems(5,6) have "request_id (h ! b) \<in> fin" by simp
    with Cons.prems(1) p
    have d: "drain_new q (h[b := finish (Some CancelledError) (h ! b)]) rs new
               (fin - {request_id (h ! b)}) = (h', rs', new', fin')" by simp
    have rest: "\<forall>(c, m) \<in> set q. nr_request_id m \<noteq> rid"
      using Cons.prems(7) p bq True by (auto simp: image_iff) 
    from drain_new_other [OF d pend_ok_upd_finish [OF ok] rest]
    have 1: "map_of rs' rid = map_of rs rid"
      and 2: "\<forall>n \<in> set new'. nr_request_id n = rid \<longrightarrow> n \<in> set new"
      and 3: "rid \<notin> fin'"
      using b n Cons.prems(6) by auto
    from drain_new_store_notin [OF bq, of "h[b := finish (Some CancelledError) (h ! b)]" rs new
        "fin - {request_id (h ! b)}"] d b
    have "h' ! b = finish (Some CancelledError) (h ! b)" by simp
    with 1 2 3 True show ?thesis by simp
  next
    case False
    with Cons.prems(4) p have inq: "(a, nr) \<in> set q" by auto
    from Cons.prems(7) p False Cons.prems(6) have ne: "nr_request_id n \<noteq> rid" by auto
    have rest: "\<forall>(b, n) \<in> set q. nr_request_id n = rid \<longrightarrow> b = a"
      using Cons.prems(7) by auto
    show ?thesis
    proof (cases "request_id (h ! b) \<in> fin")
      case True
      with Cons.prems(1) p
      have d: "drain_new q (h[b := finish (Some CancelledError) (h ! b)]) rs new
                 (fin - {request_id (h ! b)}) = (h', rs', new', fin')" by simp
      have rf: "rid \<in> fin - {request_id (h ! b)}"
        using Cons.prems(5) ne b by simp
      from Cons.IH [OF d pend_ok_upd_finish [OF ok] dq inq rf Cons.prems(6) rest] \<open>b \<noteq> a\<close>
      show ?thesis by simp
    next
      case nin: False
      with Cons.prems(1) p
      have d: "drain_new q h (AList.update (request_id (h ! b)) b rs) (new @ [n]) fin
                 = (h', rs', new', fin')" by simp
      from Cons.IH [OF d ok dq inq Cons.prems(5) Cons.prems(6) rest] ne b
      show ?thesis by (auto simp: update_conv')
    qed
  qed
qed

lemma update_entries:
  "(k', b) \<in> set (AList.update k a rs) \<Longrightarrow> (k', b) = (k, a) \<or> (k', b) \<in> set rs"
  by (induction rs) (auto split: if_splits)

lemma drain_new_rs_entries:
  "(k, b) \<in> set (fst (snd (drain_new q h rs new fin))) \<Longrightarrow>
     (k, b) \<in> set rs \<or> (b \<in> fst ` set q \<and> k = request_id (h ! b))"
proof (induction q arbitrary: h rs new fin)
  case Nil
  then show ?case by simp
next
  case (Cons p q)
  obtain a nr where p: "p = (a, nr)" by (cases p)
  show ?case
  proof (cases "request_id (h ! a) \<in> fin")
    case True
    with Cons.prems p
    have "(k, b) \<in> set (fst (snd (drain_new q (h[a := finish (Some CancelledError) (h ! a)])
             rs new (fin - {request_id (h ! a)}))))" by simp
    from Cons.IH [OF this] show ?thesis
      by (auto simp: p request_id_upd_finish)
  next
    case False
    with Cons.prems p
    have "(k, b) \<in> set (fst (snd (drain_new q h (AList.update (request_id (h ! a)) a rs)
             (new @ [nr]) fin)))" by simp
    from Cons.IH [OF this] show ?thesis
      by (auto simp: p dest: update_entries)
  qed
qed

lemma wf_pend_ok: "wf_tracker t \<Longrightarrow> pend_ok (store t) (new_requests t)"
  by (auto simp: wf_tracker_def pend_ok_def)

lemma drain_unfold:
  "drain_new (new_requests t) (store t) (request_streams t) []
      (drain_aborted (aborted_requests t) {}) = (h', rs', new', fin') \<Longrightarrow>
   get_new_and_aborted_requests t =
     ((new', fin'),
      t\<lparr>store := h', request_streams := rs', aborted_requests := [], new_requests := []\<rparr>)"
  by (simp add: get_new_and_aborted_requests_def)

text \<open>
  Abort precedence at the drain. For a request id that is in the queue of aborted ids and
  that exactly one queued new request carries, \<open>get_new_and_aborted_requests\<close> lets the abort
  win: the request's stream holds exactly the cancellation terminator, the id is not
  registered in \<open>request_streams\<close> (nor is the stream), no returned new request carries the
  id, and the id is not in the returned set of aborted ids.
\<close>

lemma abort_wins_single_submission:
  assumes wf: "wf_tracker t"
    and inq: "(a, nr) \<in> set (new_requests t)"
    and ab: "nr_request_id nr \<in> set (aborted_requests t)"
    and uniq: "\<forall>(b, n) \<in> set (new_requests t). nr_request_id n = nr_request_id nr \<longrightarrow> b = a"
  shows "store (snd (get_new_and_aborted_requests t)) ! a =
           \<lparr>request_id = nr_request_id nr, queue = [Raise CancelledError], finished = True\<rparr>
         \<and> generator (queue (store (snd (get_new_and_aborted_requests t)) ! a)) =
             ([], Raised CancelledError)
         \<and> map_of (request_streams (snd (get_new_and_aborted_requests t))) (nr_request_id nr) = None
         \<and> a \<notin> snd ` set (request_streams (snd (get_new_and_aborted_requests t)))
         \<and> (\<forall>n \<in> set (fst (fst (get_new_and_aborted_requests t))).
               nr_request_id n \<noteq> nr_request_id nr)
         \<and> nr_request_id nr \<notin> snd (fst (get_new_and_aborted_requests t))"
proof -
  obtain h' rs' new' fin' where d:
    "drain_new (new_requests t) (store t) (request_streams t) []
       (drain_aborted (aborted_requests t) {}) = (h', rs', new', fin')"
    by (metis prod_cases4)
  note g = drain_unfold [OF d]
  from wf inq have fresh: "a < length (store t)" "request_id (store t ! a) = nr_request_id nr"
    "\<not> finished (store t ! a)" "queue (store t ! a) = []"
    "map_of (request_streams t) (nr_request_id nr) = None"
    by (auto simp: wf_tracker_def)
  from wf have dist: "distinct (map fst (new_requests t))"
    by (simp add: wf_tracker_def)
  from ab have fin: "nr_request_id nr \<in> drain_aborted (aborted_requests t) {}"
    by (simp add: drain_aborted_set)
  from drain_new_abort_wins [OF d wf_pend_ok [OF wf] dist inq fin refl uniq]
  have 1: "h' ! a = finish (Some CancelledError) (store t ! a)"
    and 2: "map_of rs' (nr_request_id nr) = map_of (request_streams t) (nr_request_id nr)"
    and 3: "\<forall>n \<in> set new'. nr_request_id n \<noteq> nr_request_id nr"
    and 4: "nr_request_id nr \<notin> fin'"
    by auto
  have s: "h' ! a = \<lparr>request_id = nr_request_id nr, queue = [Raise CancelledError], finished = True\<rparr>"
    using 1 fresh by (simp add: finish_def)
  have none: "map_of rs' (nr_request_id nr) = None"
    using 2 fresh by simp
  have notreg: "a \<notin> snd ` set rs'"
  proof
    assume "a \<in> snd ` set rs'"
    then obtain k where k: "(k, a) \<in> set rs'" by auto
    with d have "(k, a) \<in> set (fst (snd (drain_new (new_requests t) (store t) (request_streams t) []
       (drain_aborted (aborted_requests t) {}))))" by simp
    from drain_new_rs_entries [OF this]
    have "(k, a) \<in> set (request_streams t) \<or> k = request_id (store t ! a)" by auto
    then show False
    proof
      assume old: "(k, a) \<in> set (request_streams t)"
      with wf have "request_id (store t ! a) = k" by (auto simp: wf_tracker_def)
      with fresh have "k = nr_request_id nr" by simp
      with old fresh(5) show False
        by (auto simp: map_of_eq_None_iff image_iff)
    next
      assume "k = request_id (store t ! a)"
      with fresh k none show False
        by (auto simp: map_of_eq_None_iff image_iff)
    qed
  qed
  show ?thesis
    unfolding g using s none notreg 3 4 by simp
qed

lemma once_then_abort_eq:
  "once_then_abort =
     \<lparr>store = [AsyncStream_init ''r1'', AsyncStream_init ''r2''], request_streams = [],
      aborted_requests = [''r1''],
      new_requests = [(0, \<lparr>nr_request_id = ''r1'', nr_kwargs = example_kwargs\<rparr>),
                      (1, \<lparr>nr_request_id = ''r2'', nr_kwargs = example_kwargs\<rparr>)],
      new_requests_event = True\<rparr>"
  by (simp add: once_then_abort_def add_request_def abort_request_def RequestTracker_init_def)

lemma abort_wins_once_then_abort:
  "store (snd (get_new_and_aborted_requests once_then_abort)) ! 0 =
      \<lparr>request_id = ''r1'', queue = [Raise CancelledError], finished = True\<rparr>
   \<and> map_of (request_streams (snd (get_new_and_aborted_requests once_then_abort))) ''r1'' = None
   \<and> ''r1'' \<notin> snd (fst (get_new_and_aborted_requests once_then_abort))"
  using abort_wins_single_submission [of once_then_abort 0
      "\<lparr>nr_request_id = ''r1'', nr_kwargs = example_kwargs\<rparr>"]
  by (simp add: once_then_abort_eq wf_tracker_def AsyncStream_init_def)

lemma twice_then_abort_eq:
  "twice_then_abort =
     \<lparr>store = [AsyncStream_init ''r1'', AsyncStream_init ''r1''], request_streams = [],
      aborted_requests = [''r1''],
      new_requests = [(0, \<lparr>nr_request_id = ''r1'', nr_kwargs = example_kwargs\<rparr>),
                      (1, \<lparr>nr_request_id = ''r1'', nr_kwargs = example_kwargs\<rparr>)],
      new_requests_event = True\<rparr>"
  by (simp add: twice_then_abort_def add_request_def abort_request_def RequestTracker_init_def)

text \<open>
  C1. The abort does not win for every request id that is in both queues. \<open>add_request\<close>
  looks for the id in \<open>request_streams\<close> only, so an id whose first submission is still
  queued is accepted a second time. With \<open>r1\<close> submitted twice and then aborted,
  \<open>get_new_and_aborted_requests\<close> finishes the first stream with the cancellation and takes
  the id out of the set of aborted ids; the second stream is then registered under \<open>r1\<close>
  and its request is returned for the engine.
\<close>

theorem C1_duplicate_pending_divergence:
  "aborted_requests twice_then_abort = [''r1'']
   \<and> map (nr_request_id \<circ> snd) (new_requests twice_then_abort) = [''r1'', ''r1'']
   \<and> get_new_and_aborted_requests twice_then_abort =
       (([\<lparr>nr_request_id = ''r1'', nr_kwargs = example_kwargs\<rparr>], {}),
        \<lparr>store = [\<lparr>request_id = ''r1'', queue = [Raise CancelledError], finished = True\<rparr>,
                  \<lparr>request_id = ''r1'', queue = [], finished = False\<rparr>],
         request_streams = [(''r1'', 1)], aborted_requests = [], new_requests = [],
         new_requests_event = True\<rparr>)"
  by (simp add: twice_then_abort_eq AsyncStream_init_def
      get_new_and_aborted_requests_def finish_def)

lemma pend_ok_store_ids: "pend_ok h q \<Longrightarrow> store_ids h q = map (nr_request_id \<circ> snd) q"
  by (auto simp: pend_ok_def store_ids_def)

lemma drain_aborted_ids:
  "wf_tracker t \<Longrightarrow>
   snd (fst (get_new_and_aborted_requests t)) =
     set (aborted_requests t) - set (map (nr_request_id \<circ> snd) (new_requests t))"
  using drain_new_fin [of "new_requests t" "store t" "request_streams t" "[]"
      "drain_aborted (aborted_requests t) {}"]
  by (simp add: get_new_and_aborted_requests_def split_def drain_aborted_set
      pend_ok_store_ids [OF wf_pend_ok])

lemma abort_request_unregistered:
  "map_of (request_streams t) rid = None \<Longrightarrow>
   abort_request t rid e = t\<lparr>aborted_requests := aborted_requests t @ [rid]\<rparr>"
  by (simp add: abort_request_def)

lemma wf_tracker_aborted_update:
  "wf_tracker t \<Longrightarrow> wf_tracker (t\<lparr>aborted_requests := q\<rparr>)"
  by (simp add: wf_tracker_def)

text \<open>
  C3 (as amended). \<open>abort_request\<close> on an id that is neither registered in \<open>request_streams\<close>
  nor queued as a new request finishes no stream and changes nothing but the queue of aborted
  ids, to which it appends the id; at the next \<open>get_new_and_aborted_requests\<close> that id is in
  the returned set of aborted ids. The returned set is the queued aborted ids less the ids of
  the queued new requests, whether or not an id was ever registered.
\<close>

theorem C3_abort_unknown_is_reported:
  assumes wf: "wf_tracker t"
    and nostream: "map_of (request_streams t) rid = None"
    and nopending: "rid \<notin> set (map (nr_request_id \<circ> snd) (new_requests t))"
  shows "abort_request t rid e = t\<lparr>aborted_requests := aborted_requests t @ [rid]\<rparr>
         \<and> rid \<in> snd (fst (get_new_and_aborted_requests (abort_request t rid e)))
         \<and> snd (fst (get_new_and_aborted_requests t)) =
             set (aborted_requests t) - set (map (nr_request_id \<circ> snd) (new_requests t))"
proof -
  note a = abort_request_unregistered [OF nostream, of e]
  have "wf_tracker (abort_request t rid e)"
    unfolding a by (rule wf_tracker_aborted_update [OF wf])
  from drain_aborted_ids [OF this] nopending
  have "rid \<in> snd (fst (get_new_and_aborted_requests (abort_request t rid e)))"
    unfolding a by simp
  with a drain_aborted_ids [OF wf] show ?thesis by simp
qed

lemma wf_tracker_init: "wf_tracker (RequestTracker_init h)"
  by (simp add: wf_tracker_def RequestTracker_init_def)

theorem C3_abort_unknown_witness:
  "abort_request (RequestTracker_init []) ''ghost'' (Some CancelledError) =
     (RequestTracker_init [])\<lparr>aborted_requests := [''ghost'']\<rparr>
   \<and> ''ghost'' \<in> snd (fst (get_new_and_aborted_requests
        (abort_request (RequestTracker_init []) ''ghost'' (Some CancelledError))))"
proof -
  have 1: "wf_tracker (RequestTracker_init [])"
    by (rule wf_tracker_init)
  have 2: "map_of (request_streams (RequestTracker_init [])) ''ghost'' = None"
    by (simp add: RequestTracker_init_def)
  have 3: "''ghost'' \<notin> set (map (nr_request_id \<circ> snd) (new_requests (RequestTracker_init [])))"
    by (simp add: RequestTracker_init_def)
  have 4: "aborted_requests (RequestTracker_init []) = []"
    by (simp add: RequestTracker_init_def)
  from C3_abort_unknown_is_reported [OF 1 2 3, of "Some CancelledError"]
  show ?thesis unfolding 4 append_Nil by blast
qed

text \<open>
  The claim as stated fails on a tracker that never saw the id: the abort changes the
  tracker, and the drain returns the id for the engine to abort.
\<close>

theorem C3_abort_unknown_counterexample:
  "map_of (request_streams (RequestTracker_init [])) ''ghost'' = None
   \<and> new_requests (RequestTracker_init []) = []
   \<and> abort_request (RequestTracker_init []) ''ghost'' (Some CancelledError) \<noteq> RequestTracker_init []
   \<and> get_new_and_aborted_requests
        (abort_request (RequestTracker_init []) ''ghost'' (Some CancelledError)) =
       (([], {''ghost''}), RequestTracker_init [])"
  by (simp add: RequestTracker_init_def abort_request_def get_new_and_aborted_requests_def)

lemma drain_new_store_frame:
  "request_id (h ! b) \<notin> fin \<Longrightarrow> fst (drain_new q h rs new fin) ! b = h ! b"
proof (induction q arbitrary: h rs new fin)
  case Nil
  show ?case by simp
next
  case (Cons p q)
  obtain a nr where p: "p = (a, nr)" by (cases p)
  show ?case
  proof (cases "request_id (h ! a) \<in> fin")
    case True
    with Cons.prems have ne: "a \<noteq> b" by auto
    have "request_id ((h[a := finish (Some CancelledError) (h ! a)]) ! b)
            \<notin> fin - {request_id (h ! a)}"
      using Cons.prems by (simp add: request_id_upd_finish)
    from Cons.IH [OF this] True ne show ?thesis
      unfolding p by simp
  next
    case False
    with Cons.IH [OF Cons.prems] show ?thesis
      unfolding p by simp
  qed
qed





subsection \<open>Unreferenced streams are left alone\<close>

lemma delete_entries: "(k, b) \<in> set (AList.delete r rs) \<Longrightarrow> (k, b) \<in> set rs"
  by (auto simp: AList.delete_eq)

lemma unref_abort_request:
  assumes "\<not> referenced t a"
  shows "store (abort_request t rid e) ! a = store t ! a
         \<and> \<not> referenced (abort_request t rid e) a
         \<and> length (store (abort_request t rid e)) = length (store t)"
proof (cases "map_of (request_streams t) rid")
  case None
  with assms show ?thesis by (simp add: abort_request_def referenced_def)
next
  case (Some b)
  then have "(rid, b) \<in> set (request_streams t)" by (rule map_of_SomeD)
  with assms have "b \<noteq> a" by (force simp: referenced_def)
  with assms Some show ?thesis
    by (auto simp: abort_request_def referenced_def dest: delete_entries)
qed

lemma unref_process_request_output:
  assumes "\<not> referenced t a"
  shows "store (process_request_output t out) ! a = store t ! a
         \<and> \<not> referenced (process_request_output t out) a
         \<and> length (store (process_request_output t out)) = length (store t)"
proof (cases "map_of (request_streams t) (out_request_id out)")
  case None
  with assms show ?thesis by (simp add: process_request_output_def)
next
  case (Some b)
  then have "(out_request_id out, b) \<in> set (request_streams t)" by (rule map_of_SomeD)
  with assms have "b \<noteq> a" by (force simp: referenced_def)
  with assms Some show ?thesis
    by (auto simp: process_request_output_def referenced_def dest: delete_entries)
qed

lemma unref_fold_abort:
  assumes "\<not> referenced t a"
  shows "store (fold (\<lambda>rid t'. abort_request t' rid e) rids t) ! a = store t ! a
         \<and> \<not> referenced (fold (\<lambda>rid t'. abort_request t' rid e) rids t) a
         \<and> length (store (fold (\<lambda>rid t'. abort_request t' rid e) rids t)) = length (store t)"
  using assms
proof (induction rids arbitrary: t)
  case Nil
  then show ?case by simp
next
  case (Cons r rids)
  from unref_abort_request [OF Cons.prems, of r e] Cons.IH [of "abort_request t r e"]
  show ?case by simp
qed

lemma unref_propagate_exception:
  assumes "\<not> referenced t a"
  shows "store (propagate_exception t e ro) ! a = store t ! a
         \<and> \<not> referenced (propagate_exception t e ro) a
         \<and> length (store (propagate_exception t e ro)) = length (store t)"
  using unref_abort_request [OF assms] unref_fold_abort [OF assms]
  by (cases ro) (simp_all add: propagate_exception_def)

lemma unref_add_request:
  assumes "\<not> referenced t a" and "a < length (store t)"
    and "add_request t rid kw = Inr (b, t')"
  shows "store t' ! a = store t ! a \<and> \<not> referenced t' a \<and> a < length (store t')"
  using assms
  by (auto simp: add_request_def referenced_def nth_append split: if_splits)

lemma unref_drain:
  assumes "\<not> referenced t a"
  shows "store (snd (get_new_and_aborted_requests t)) ! a = store t ! a
         \<and> \<not> referenced (snd (get_new_and_aborted_requests t)) a
         \<and> length (store (snd (get_new_and_aborted_requests t))) = length (store t)"
proof -
  obtain h' rs' new' fin' where d:
    "drain_new (new_requests t) (store t) (request_streams t) []
       (drain_aborted (aborted_requests t) {}) = (h', rs', new', fin')"
    by (metis prod_cases4)
  note g = drain_unfold [OF d]
  from assms have nq: "a \<notin> fst ` set (new_requests t)" and ns: "a \<notin> snd ` set (request_streams t)"
    by (simp_all add: referenced_def)
  have 1: "h' ! a = store t ! a"
    using drain_new_store_notin [OF nq, of "store t" "request_streams t" "[]"
        "drain_aborted (aborted_requests t) {}"] d by simp
  have 2: "length h' = length (store t)"
    using drain_new_length [of "new_requests t" "store t" "request_streams t" "[]"
        "drain_aborted (aborted_requests t) {}"] d by simp
  have 3: "a \<notin> snd ` set rs'"
  proof
    assume "a \<in> snd ` set rs'"
    then obtain k where "(k, a) \<in> set rs'" by auto
    with d have "(k, a) \<in> set (fst (snd (drain_new (new_requests t) (store t) (request_streams t) []
       (drain_aborted (aborted_requests t) {}))))" by simp
    from drain_new_rs_entries [OF this] nq ns show False by force
  qed
  show ?thesis unfolding g using 1 2 3 by (simp add: referenced_def)
qed

lemma unref_run_call:
  assumes "\<not> referenced t a" and "a < length (store t)"
  shows "store (run_call c t) ! a = store t ! a \<and> \<not> referenced (run_call c t) a
         \<and> a < length (store (run_call c t))"
proof (cases c)
  case (AddRequest rid kw)
  show ?thesis
  proof (cases "add_request t rid kw")
    case (Inl e)
    with assms AddRequest show ?thesis by simp
  next
    case (Inr r)
    obtain b t' where "r = (b, t')" by (cases r)
    with Inr unref_add_request [OF assms, of rid kw b t'] AddRequest show ?thesis by simp
  qed
next
  case (AbortRequest rid e)
  with unref_abort_request [OF assms(1), of rid e] assms(2) show ?thesis by simp
next
  case (ProcessRequestOutput out)
  with unref_process_request_output [OF assms(1), of out] assms(2) show ?thesis by simp
next
  case (ProcessException rid e)
  with unref_abort_request [OF assms(1), of rid "Some e"] assms(2) show ?thesis
    by (simp add: process_exception_def)
next
  case (PropagateException e ro)
  with unref_propagate_exception [OF assms(1), of e ro] assms(2) show ?thesis by simp
next
  case GetNewAndAborted
  with unref_drain [OF assms(1)] assms(2) show ?thesis by simp
next
  case WaitForNewRequests
  with assms show ?thesis
    by (simp add: wait_for_new_requests_def referenced_def)
qed

lemma unref_tracker_calls:
  "\<not> referenced t a \<Longrightarrow> a < length (store t) \<Longrightarrow> store (tracker_calls cs t) ! a = store t ! a"
proof (induction cs arbitrary: t)
  case Nil
  show ?case by simp
next
  case (Cons c cs)
  from unref_run_call [OF Cons.prems, of c] Cons.IH [of "run_call c t"]
  show ?case by simp
qed


lemma add_request_Inr:
  "add_request t rid kw = Inr (a, t') \<Longrightarrow>
     map_of (request_streams t) rid = None \<and> a = length (store t)
     \<and> t' = t\<lparr>store := store t @ [AsyncStream_init rid],
               new_requests := new_requests t @ [(a, \<lparr>nr_request_id = rid, nr_kwargs = kw\<rparr>)],
               new_requests_event := True\<rparr>"
  by (auto simp: add_request_def split: if_splits)




section \<open>Proofs: the engine\<close>

text \<open>
  C8. \<open>_has_remaining_steps\<close> raises, and then the \<open>AssertionError\<close> of the invariant, exactly
  when multi-step is enabled, the list is not empty and some sequence group's remaining
  steps differ from the first group's. Otherwise it returns, and the value is true exactly
  when multi-step is enabled, the list is not empty and the first group's (hence the shared)
  remaining steps are positive.
\<close>

theorem C8_has_remaining_steps:
  "((\<exists>e. has_remaining_steps x eng l = Inl e) =
      (is_multi_step eng \<and>
       (\<exists>g gs. l = Some (g # gs) \<and>
          (\<exists>sg \<in> set gs. ext_remaining_steps x (base eng) sg \<noteq> ext_remaining_steps x (base eng) g))))
   \<and> ((has_remaining_steps x eng l =
         Inl (AssertionError ''All running sequence groups should have the same remaining steps.'')) =
      (is_multi_step eng \<and>
       (\<exists>g gs. l = Some (g # gs) \<and>
          (\<exists>sg \<in> set gs. ext_remaining_steps x (base eng) sg \<noteq> ext_remaining_steps x (base eng) g))))
   \<and> ((has_remaining_steps x eng l = Inr r) =
      (\<not> (is_multi_step eng \<and>
          (\<exists>g gs. l = Some (g # gs) \<and>
             (\<exists>sg \<in> set gs. ext_remaining_steps x (base eng) sg \<noteq> ext_remaining_steps x (base eng) g)))
       \<and> r = (is_multi_step eng \<and>
               (\<exists>g gs. l = Some (g # gs) \<and> 0 < ext_remaining_steps x (base eng) g))))"
proof (cases l)
  case None
  then show ?thesis by (simp add: has_remaining_steps_def)
next
  case (Some gl)
  show ?thesis
  proof (cases gl)
    case Nil
    with Some show ?thesis by (simp add: has_remaining_steps_def)
  next
    case (Cons g gs)
    with Some show ?thesis
      by (auto simp: has_remaining_steps_def list_ex_iff)
  qed
qed

lemma schedule_cache:
  assumes "step_async_schedule x eng ve = Inr (sgml, so, eng1)"
  shows "ve < length (cached_scheduler_outputs eng)
         \<and> is_multi_step eng1 = is_multi_step eng
         \<and> length (cached_scheduler_outputs eng1) = length (cached_scheduler_outputs eng)
         \<and> ((has_remaining_steps x eng (seq_group_metadata_list (cached_scheduler_outputs eng ! ve))
                = Inr True \<or> (is_multi_step eng \<and> 0 < num_lookahead_slots so)) \<longrightarrow>
              seq_group_metadata_list (cached_scheduler_outputs eng1 ! ve) = Some sgml
              \<and> scheduler_outputs (cached_scheduler_outputs eng1 ! ve) = Some so)"
  using assms
  by (auto simp: step_async_schedule_def py_index_def cache_scheduler_outputs_for_multi_step_def
      split: if_splits sum.splits bool.splits option.splits prod.splits)

lemma update_cached_keeps:
  assumes "update_cached_scheduler_output eng ve output = Inr eng'"
  shows "is_multi_step eng' = is_multi_step eng \<and> base eng' = base eng
         \<and> length (cached_scheduler_outputs eng') = length (cached_scheduler_outputs eng)
         \<and> seq_group_metadata_list (cached_scheduler_outputs eng' ! ve)
             = seq_group_metadata_list (cached_scheduler_outputs eng ! ve)
         \<and> scheduler_outputs (cached_scheduler_outputs eng' ! ve)
             = scheduler_outputs (cached_scheduler_outputs eng ! ve)"
proof (cases "ve < length (cached_scheduler_outputs eng)")
  case True
  with assms show ?thesis
    by (auto simp: update_cached_scheduler_output_def split: if_splits option.splits)
next
  case False
  with assms show ?thesis
    by (auto simp: update_cached_scheduler_output_def list_update_beyond
        split: if_splits option.splits)
qed

lemma execute_cache:
  assumes "step_async_execute x eng1 ve sgml so = Inr (output, eng2)"
  shows "is_multi_step eng2 = is_multi_step eng1
         \<and> length (cached_scheduler_outputs eng2) = length (cached_scheduler_outputs eng1)
         \<and> seq_group_metadata_list (cached_scheduler_outputs eng2 ! ve)
             = seq_group_metadata_list (cached_scheduler_outputs eng1 ! ve)
         \<and> scheduler_outputs (cached_scheduler_outputs eng2 ! ve)
             = scheduler_outputs (cached_scheduler_outputs eng1 ! ve)"
proof (cases "ext_is_empty x so")
  case True
  with assms show ?thesis by (simp add: step_async_execute_def)
next
  case False
  obtain ids b1 where g: "ext_get_and_reset_finished_requests_ids x (base eng1) ve = (ids, b1)"
    by (cases "ext_get_and_reset_finished_requests_ids x (base eng1) ve")
  from assms False g obtain b2 where
    r: "(is_multi_step eng1 \<and> update_cached_scheduler_output (eng1\<lparr>base := b2\<rparr>) ve output = Inr eng2)
        \<or> (\<not> is_multi_step eng1 \<and> eng2 = eng1\<lparr>base := b2\<rparr>)"
    by (auto simp: step_async_execute_def split: sum.splits if_splits)
  then show ?thesis
  proof
    assume "is_multi_step eng1 \<and> update_cached_scheduler_output (eng1\<lparr>base := b2\<rparr>) ve output = Inr eng2"
    with update_cached_keeps [of "eng1\<lparr>base := b2\<rparr>" ve "output" eng2] show ?thesis by simp
  next
    assume "\<not> is_multi_step eng1 \<and> eng2 = eng1\<lparr>base := b2\<rparr>"
    then show ?thesis by simp
  qed
qed

lemma finish_step_cache:
  assumes "step_async_finish_step x eng2 sgml = Inr eng3"
  shows "is_multi_step eng3 = is_multi_step eng2
         \<and> cached_scheduler_outputs eng3 = cached_scheduler_outputs eng2"
  using assms by (auto simp: step_async_finish_step_def split: if_splits sum.splits)

text \<open>
  C9. Let a step on virtual engine \<open>ve\<close> have taken its batch (\<open>step_async_schedule\<close>), run
  the model (\<open>step_async_execute\<close>) and finished the step of every group
  (\<open>step_async_finish_step\<close>). If the groups then still have remaining steps, \<open>step_async\<close>
  returns the empty list (it does return when logging the statistics does not raise) and
  the cache is the one the execution left: not cleared, and still holding the batch whenever
  the batch was taken from the cache or was cached for its lookahead slots. If no steps
  remain, \<open>step_async\<close> returns the outputs that the output processor made of the model's
  output (it does return when the processor and the logging do not raise) and, under
  multi-step, the cache entry of \<open>ve\<close> is the empty state.
\<close>

theorem C9_step_async_defers_or_materializes:
  assumes sched: "step_async_schedule x eng ve = Inr (sgml, so, eng1)"
    and exec: "step_async_execute x eng1 ve sgml so = Inr (output, eng2)"
    and fin: "step_async_finish_step x eng2 sgml = Inr eng3"
  shows "(has_remaining_steps x eng3 (Some sgml) = Inr True \<longrightarrow>
            (\<forall>b. ext_do_log_stats x (base eng3) so output = Inr b \<longrightarrow>
               (\<exists>eng'. step_async x eng ve = Inr ([], eng')
                  \<and> cached_scheduler_outputs eng' = cached_scheduler_outputs eng2))
            \<and> (\<forall>outs eng'. step_async x eng ve = Inr (outs, eng') \<longrightarrow>
                  outs = [] \<and> cached_scheduler_outputs eng' = cached_scheduler_outputs eng2)
            \<and> ((has_remaining_steps x eng
                   (seq_group_metadata_list (cached_scheduler_outputs eng ! ve)) = Inr True
                 \<or> 0 < num_lookahead_slots so) \<longrightarrow>
                seq_group_metadata_list (cached_scheduler_outputs eng2 ! ve) = Some sgml
                \<and> scheduler_outputs (cached_scheduler_outputs eng2 ! ve) = Some so))
         \<and> (has_remaining_steps x eng3 (Some sgml) = Inr False \<longrightarrow>
            (\<forall>outs b b'.
               ext_process_model_outputs x (base eng3) output (scheduled_seq_groups so)
                 (ignored_seq_groups so) sgml = Inr (outs, b)
               \<and> ext_do_log_stats x b so output = Inr b' \<longrightarrow>
               (\<exists>eng'. step_async x eng ve = Inr (outs, eng')))
            \<and> (\<forall>outs eng'. step_async x eng ve = Inr (outs, eng') \<longrightarrow>
                  (\<exists>b. ext_process_model_outputs x (base eng3) output (scheduled_seq_groups so)
                         (ignored_seq_groups so) sgml = Inr (outs, b))
                  \<and> (is_multi_step eng \<longrightarrow>
                        cached_scheduler_outputs eng' ! ve = SchedulerOutputState_init)
                  \<and> (\<not> is_multi_step eng \<longrightarrow>
                        cached_scheduler_outputs eng' = cached_scheduler_outputs eng2)))"
proof -
  note sc = schedule_cache [OF sched]
  note ec = execute_cache [OF exec]
  note fc = finish_step_cache [OF fin]
  have ms: "is_multi_step eng3 = is_multi_step eng" using sc ec fc by simp
  have len: "ve < length (cached_scheduler_outputs eng3)" using sc ec fc by simp
  have unfold: "step_async x eng ve =
     (case step_async_outputs x eng3 ve sgml so output of
        Inl e \<Rightarrow> Inl e
      | Inr (request_outputs, eng4) \<Rightarrow>
          (case ext_do_log_stats x (base eng4) so output of
             Inl e \<Rightarrow> Inl e
           | Inr b \<Rightarrow> Inr (request_outputs, eng4\<lparr>base := b\<rparr>)))"
    by (simp add: step_async_def sched exec fin)
  have A: "has_remaining_steps x eng3 (Some sgml) = Inr True \<longrightarrow>
            (\<forall>b. ext_do_log_stats x (base eng3) so output = Inr b \<longrightarrow>
               (\<exists>eng'. step_async x eng ve = Inr ([], eng')
                  \<and> cached_scheduler_outputs eng' = cached_scheduler_outputs eng2))
            \<and> (\<forall>outs eng'. step_async x eng ve = Inr (outs, eng') \<longrightarrow>
                  outs = [] \<and> cached_scheduler_outputs eng' = cached_scheduler_outputs eng2)
            \<and> ((has_remaining_steps x eng
                   (seq_group_metadata_list (cached_scheduler_outputs eng ! ve)) = Inr True
                 \<or> 0 < num_lookahead_slots so) \<longrightarrow>
                seq_group_metadata_list (cached_scheduler_outputs eng2 ! ve) = Some sgml
                \<and> scheduler_outputs (cached_scheduler_outputs eng2 ! ve) = Some so)"
  proof
    assume r: "has_remaining_steps x eng3 (Some sgml) = Inr True"
    then have m: "is_multi_step eng"
      using ms by (auto simp: has_remaining_steps_def split: list.splits if_splits)
    have o: "step_async_outputs x eng3 ve sgml so output = Inr ([], eng3)"
      by (simp add: step_async_outputs_def r)
    show "(\<forall>b. ext_do_log_stats x (base eng3) so output = Inr b \<longrightarrow>
               (\<exists>eng'. step_async x eng ve = Inr ([], eng')
                  \<and> cached_scheduler_outputs eng' = cached_scheduler_outputs eng2))
            \<and> (\<forall>outs eng'. step_async x eng ve = Inr (outs, eng') \<longrightarrow>
                  outs = [] \<and> cached_scheduler_outputs eng' = cached_scheduler_outputs eng2)
            \<and> ((has_remaining_steps x eng
                   (seq_group_metadata_list (cached_scheduler_outputs eng ! ve)) = Inr True
                 \<or> 0 < num_lookahead_slots so) \<longrightarrow>
                seq_group_metadata_list (cached_scheduler_outputs eng2 ! ve) = Some sgml
                \<and> scheduler_outputs (cached_scheduler_outputs eng2 ! ve) = Some so)"
      using sc ec fc m by (auto simp: unfold o split: sum.splits)
  qed
  have B: "has_remaining_steps x eng3 (Some sgml) = Inr False \<longrightarrow>
            (\<forall>outs b b'.
               ext_process_model_outputs x (base eng3) output (scheduled_seq_groups so)
                 (ignored_seq_groups so) sgml = Inr (outs, b)
               \<and> ext_do_log_stats x b so output = Inr b' \<longrightarrow>
               (\<exists>eng'. step_async x eng ve = Inr (outs, eng')))
            \<and> (\<forall>outs eng'. step_async x eng ve = Inr (outs, eng') \<longrightarrow>
                  (\<exists>b. ext_process_model_outputs x (base eng3) output (scheduled_seq_groups so)
                         (ignored_seq_groups so) sgml = Inr (outs, b))
                  \<and> (is_multi_step eng \<longrightarrow>
                        cached_scheduler_outputs eng' ! ve = SchedulerOutputState_init)
                  \<and> (\<not> is_multi_step eng \<longrightarrow>
                        cached_scheduler_outputs eng' = cached_scheduler_outputs eng2))"
  proof
    assume r: "has_remaining_steps x eng3 (Some sgml) = Inr False"
    show "(\<forall>outs b b'.
               ext_process_model_outputs x (base eng3) output (scheduled_seq_groups so)
                 (ignored_seq_groups so) sgml = Inr (outs, b)
               \<and> ext_do_log_stats x b so output = Inr b' \<longrightarrow>
               (\<exists>eng'. step_async x eng ve = Inr (outs, eng')))
            \<and> (\<forall>outs eng'. step_async x eng ve = Inr (outs, eng') \<longrightarrow>
                  (\<exists>b. ext_process_model_outputs x (base eng3) output (scheduled_seq_groups so)
                         (ignored_seq_groups so) sgml = Inr (outs, b))
                  \<and> (is_multi_step eng \<longrightarrow>
                        cached_scheduler_outputs eng' ! ve = SchedulerOutputState_init)
                  \<and> (\<not> is_multi_step eng \<longrightarrow>
                        cached_scheduler_outputs eng' = cached_scheduler_outputs eng2))"
      using ms len fc
      by (auto simp: unfold step_async_outputs_def r split: sum.splits prod.splits)
  qed
  from A B show ?thesis by blast
qed

lemma example_engine_eq:
  "example_engine =
     \<lparr>base = [2, 2], lora_config = None, is_multi_step = True, pipeline_parallel_size = 1,
      cached_scheduler_outputs = [SchedulerOutputState_init]\<rparr>"
  by (simp add: example_engine_def AsyncEngine_init_def)

theorem C9_step_async_witness:
  "(\<exists>eng'. step_async example_ext example_engine 0 = Inr ([], eng')
       \<and> cached_scheduler_outputs eng' = cached_scheduler_outputs example_engine_cached)
   \<and> seq_group_metadata_list (cached_scheduler_outputs example_engine_cached ! 0) = Some [0, 1]"
proof -
  have 1: "step_async_schedule example_ext example_engine 0 =
             Inr ([0, 1], example_scheduler_outputs, example_engine_cached)"
    by (simp add: step_async_schedule_def example_engine_eq example_engine_cached_def
        example_ext_def py_index_def has_remaining_steps_def SchedulerOutputState_init_def
        example_scheduler_outputs_def cache_scheduler_outputs_for_multi_step_def)
  have 2: "step_async_execute example_ext example_engine_cached 0 [0, 1] example_scheduler_outputs =
             Inr ([Some example_sampler_output], example_engine_cached)"
    by (simp add: step_async_execute_def example_engine_eq example_engine_cached_def
        example_ext_def example_scheduler_outputs_def update_cached_scheduler_output_def)
  have 3: "step_async_finish_step example_ext example_engine_cached [0, 1] =
             Inr (example_engine_cached\<lparr>base := [1, 1]\<rparr>)"
    by (simp add: step_async_finish_step_def example_engine_eq example_engine_cached_def
        example_ext_def)
  have 4: "has_remaining_steps example_ext (example_engine_cached\<lparr>base := [1, 1]\<rparr>) (Some [0, 1])
             = Inr True"
    by (simp add: has_remaining_steps_def example_engine_eq example_engine_cached_def
        example_ext_def)
  have 5: "ext_do_log_stats example_ext (base (example_engine_cached\<lparr>base := [1, 1]\<rparr>))
             example_scheduler_outputs [Some example_sampler_output] = Inr [1, 1]"
    by (simp add: example_ext_def)
  have 6: "0 < num_lookahead_slots example_scheduler_outputs"
    by (simp add: example_scheduler_outputs_def)
  from C9_step_async_defers_or_materializes [OF 1 2 3] 4 5 6
  show ?thesis by blast
qed

section \<open>Proofs: what the drain registers, and the example engine\<close>

lemma drain_new_new_mono: "set new \<subseteq> set (fst (snd (snd (drain_new q h rs new fin))))"
proof (induction q arbitrary: h rs new fin)
  case Nil
  show ?case by simp
next
  case (Cons p q)
  obtain a nr where p: "p = (a, nr)" by (cases p)
  show ?case
  proof (cases "request_id (h ! a) \<in> fin")
    case True
    with Cons.IH [of new "h[a := finish (Some CancelledError) (h ! a)]" rs
        "fin - {request_id (h ! a)}"] show ?thesis
      unfolding p by simp
  next
    case False
    with Cons.IH [of "new @ [nr]" h "AList.update (request_id (h ! a)) a rs" fin] show ?thesis
      unfolding p by simp
  qed
qed

lemma drain_new_registered:
  assumes "drain_new q h rs new fin = (h', rs', new', fin')"
    and "pend_ok h q"
    and "distinct (map fst q)"
    and "(a, s) \<in> set q" and "nr_request_id s \<notin> fin"
    and "\<forall>(b, n) \<in> set q. nr_request_id n = nr_request_id s \<longrightarrow> b = a"
  shows "s \<in> set new' \<and> map_of rs' (nr_request_id s) = Some a"
  using assms
proof (induction q arbitrary: h rs new fin)
  case Nil
  then show ?case by simp
next
  case (Cons p q)
  obtain b n where p: "p = (b, n)" by (cases p)
  from Cons.prems(2) p have b: "b < length h" "request_id (h ! b) = nr_request_id n"
    and ok: "pend_ok h q"
    by (simp_all add: pend_ok_Cons)
  from Cons.prems(3) p have bq: "b \<notin> fst ` set q" and dq: "distinct (map fst q)" by auto
  show ?case
  proof (cases "b = a")
    case True
    with Cons.prems(3,4) p have n: "n = s"
      by (auto simp: image_iff)
    with b Cons.prems(5) have "request_id (h ! b) \<notin> fin" by simp
    with Cons.prems(1) p n b
    have d: "drain_new q h (AList.update (nr_request_id s) a rs) (new @ [s]) fin
               = (h', rs', new', fin')" using True by simp
    have rest: "\<forall>(c, m) \<in> set q. nr_request_id m \<noteq> nr_request_id s"
      using Cons.prems(6) p bq True by (auto simp: image_iff)
    from drain_new_other [OF d ok rest]
    have "map_of rs' (nr_request_id s) = Some a" by (simp add: update_conv')
    moreover have "s \<in> set new'"
      using drain_new_new_mono [of "new @ [s]" q h "AList.update (nr_request_id s) a rs" fin] d
      by auto
    ultimately show ?thesis by simp
  next
    case False
    with Cons.prems(4) p have inq: "(a, s) \<in> set q" by auto
    from Cons.prems(6) p False have ne: "nr_request_id n \<noteq> nr_request_id s" by auto
    have rest: "\<forall>(b, n) \<in> set q. nr_request_id n = nr_request_id s \<longrightarrow> b = a"
      using Cons.prems(6) by auto
    show ?thesis
    proof (cases "request_id (h ! b) \<in> fin")
      case True
      with Cons.prems(1) p
      have d: "drain_new q (h[b := finish (Some CancelledError) (h ! b)]) rs new
                 (fin - {request_id (h ! b)}) = (h', rs', new', fin')" by simp
      have rf: "nr_request_id s \<notin> fin - {request_id (h ! b)}"
        using Cons.prems(5) by simp
      from Cons.IH [OF d pend_ok_upd_finish [OF ok] dq inq rf rest]
      show ?thesis .
    next
      case nin: False
      with Cons.prems(1) p
      have d: "drain_new q h (AList.update (request_id (h ! b)) b rs) (new @ [n]) fin
                 = (h', rs', new', fin')" by simp
      from Cons.IH [OF d ok dq inq Cons.prems(5) rest]
      show ?thesis .
    qed
  qed
qed



section \<open>Proofs: \<open>AsyncAphrodite\<close>\<close>

lemma not_running_shutdown: "\<not> is_running (shutdown_background_loop self)"
  by (simp add: is_running_def shutdown_background_loop_def)

lemma errored_shutdown: "errored (shutdown_background_loop self) = errored self"
  by (simp add: errored_def shutdown_background_loop_def)

lemma add_request_after_shutdown_dead:
  assumes "errored self \<or> \<not> start_engine_loop self"
  shows "AsyncAphrodite_add_request now (shutdown_background_loop self) rid inp par arr lora pa =
           (Inl (AsyncEngineDeadError
              (if start_engine_loop self then ''Background loop has errored already.''
               else not_running_message)),
            shutdown_background_loop self)"
  using assms not_running_shutdown [of self]
  by (auto simp: AsyncAphrodite_add_request_def start_background_loop_def errored_shutdown)
     (simp_all add: shutdown_background_loop_def)

lemma add_request_after_shutdown_restarts:
  assumes "\<not> errored self" and "start_engine_loop self"
  shows "\<exists>a self'. AsyncAphrodite_add_request now (shutdown_background_loop self) rid inp par arr lora pa
                     = (Inr a, self') \<and> is_running self'
           \<and> (\<exists>t'. request_tracker self' = Some t' \<and> map nr_request_id (map snd (new_requests t')) = [rid])"
  using assms not_running_shutdown [of self]
  by (simp add: AsyncAphrodite_add_request_def start_background_loop_def errored_shutdown
      add_request_def RequestTracker_init_def)
     (simp add: shutdown_background_loop_def is_running_def task_done_def)

text \<open>
  C7 (as amended). After \<open>shutdown_background_loop\<close>, \<open>is_running\<close> is false. A following
  \<open>add_request\<close> fails with \<open>AsyncEngineDeadError\<close> exactly when the supervisor has errored or
  was created with \<open>start_engine_loop = False\<close>, and then leaves the supervisor as it is (so
  every later one fails too); otherwise it starts the background loop again, accepts the
  request and returns its stream.
\<close>

theorem C7_submit_after_shutdown:
  "\<not> is_running (shutdown_background_loop self)
   \<and> ((\<exists>m. fst (AsyncAphrodite_add_request now (shutdown_background_loop self) rid inp par arr lora pa)
             = Inl (AsyncEngineDeadError m))
        = (errored self \<or> \<not> start_engine_loop self))
   \<and> ((\<exists>a. fst (AsyncAphrodite_add_request now (shutdown_background_loop self) rid inp par arr lora pa)
             = Inr a
            \<and> is_running (snd (AsyncAphrodite_add_request now (shutdown_background_loop self)
                                 rid inp par arr lora pa)))
        = (\<not> errored self \<and> start_engine_loop self))
   \<and> (if errored self \<or> \<not> start_engine_loop self
       then snd (AsyncAphrodite_add_request now (shutdown_background_loop self) rid inp par arr lora pa)
              = shutdown_background_loop self
       else is_running (snd (AsyncAphrodite_add_request now (shutdown_background_loop self)
                                 rid inp par arr lora pa)))"
proof (cases "errored self \<or> \<not> start_engine_loop self")
  case True
  from add_request_after_shutdown_dead [OF True, of now rid inp par arr lora pa] True
  show ?thesis by (auto simp: not_running_shutdown)
next
  case False
  then have 1: "\<not> errored self" and 2: "start_engine_loop self" by simp_all
  from add_request_after_shutdown_restarts [OF 1 2, of now rid inp par arr lora pa] False
  show ?thesis by (auto simp: not_running_shutdown)
qed

text \<open>
  The claim as stated fails for a supervisor created with the default
  \<open>start_engine_loop = True\<close> that has not errored: the submit after the shutdown is accepted.
\<close>

theorem C7_restart_counterexample:
  "is_running running_supervisor
   \<and> \<not> is_running (shutdown_background_loop running_supervisor)
   \<and> fst (AsyncAphrodite_add_request 5 (shutdown_background_loop running_supervisor)
            ''r1'' ''hi'' ''p'' None None None) = Inr 0
   \<and> is_running (snd (AsyncAphrodite_add_request 5 (shutdown_background_loop running_supervisor)
            ''r1'' ''hi'' ''p'' None None None))"
  by (simp add: running_supervisor_def shutdown_background_loop_def is_running_def task_done_def
      AsyncAphrodite_add_request_def start_background_loop_def errored_def add_request_def
      RequestTracker_init_def)

theorem C7_submit_after_shutdown_witness:
  "\<not> is_running (shutdown_background_loop (running_supervisor\<lparr>start_engine_loop := False\<rparr>))
   \<and> (\<exists>m. fst (AsyncAphrodite_add_request 5
              (shutdown_background_loop (running_supervisor\<lparr>start_engine_loop := False\<rparr>))
              ''r1'' ''hi'' ''p'' None None None) = Inl (AsyncEngineDeadError m))"
  using C7_submit_after_shutdown [of "running_supervisor\<lparr>start_engine_loop := False\<rparr>"
      5 "''r1''" "''hi''" "''p''" None None None]
  by simp

subsection \<open>The tracker's invariant\<close>

lemma wf_registered:
  assumes "wf_tracker t" and "map_of (request_streams t) k = Some c"
  shows "c < length (store t) \<and> request_id (store t ! c) = k \<and> \<not> finished (store t ! c)"
proof -
  from assms(2) have "(k, c) \<in> set (request_streams t)" by (rule map_of_SomeD)
  with assms(1) show ?thesis by (auto simp: wf_tracker_def)
qed

lemma wf_registered_inj:
  assumes "wf_tracker t" and "map_of (request_streams t) k = Some c"
    and "(k', c') \<in> set (request_streams t)" and "k' \<noteq> k"
  shows "c' \<noteq> c"
proof
  assume "c' = c"
  with assms(1,3) have "request_id (store t ! c) = k'" by (auto simp: wf_tracker_def)
  with wf_registered [OF assms(1,2)] assms(4) show False by simp
qed

lemma wf_pending_not_registered:
  assumes "wf_tracker t" and "(a, nr) \<in> set (new_requests t)"
    and "map_of (request_streams t) k = Some c"
  shows "a \<noteq> c \<and> nr_request_id nr \<noteq> k"
proof -
  from assms(1,2) have p: "request_id (store t ! a) = nr_request_id nr"
    "map_of (request_streams t) (nr_request_id nr) = None"
    by (auto simp: wf_tracker_def)
  from p(2) assms(3) have ne: "nr_request_id nr \<noteq> k" by auto
  with p(1) wf_registered [OF assms(1,3)] show ?thesis by auto
qed


lemma wf_abort_request:
  assumes wf: "wf_tracker t"
  shows "wf_tracker (abort_request t rid e)"
proof (cases "map_of (request_streams t) rid")
  case None
  with wf show ?thesis by (simp add: abort_request_def wf_tracker_def)
next
  case (Some c)
  let ?h = "(store t)[c := finish e (store t ! c)]"
  have eq: "abort_request t rid e =
              t\<lparr>aborted_requests := aborted_requests t @ [rid],
                request_streams := AList.delete rid (request_streams t), store := ?h\<rparr>"
    using Some by (simp add: abort_request_def)
  have pend: "\<forall>(a, nr) \<in> set (new_requests t).
         a < length ?h \<and> request_id (?h ! a) = nr_request_id nr
         \<and> \<not> finished (?h ! a) \<and> queue (?h ! a) = []
         \<and> map_of (AList.delete rid (request_streams t)) (nr_request_id nr) = None"
  proof (clarify)
    fix a nr assume m: "(a, nr) \<in> set (new_requests t)"
    from wf_pending_not_registered [OF wf m Some] have "a \<noteq> c" by simp
    with wf m show "a < length ?h \<and> request_id (?h ! a) = nr_request_id nr
         \<and> \<not> finished (?h ! a) \<and> queue (?h ! a) = []
         \<and> map_of (AList.delete rid (request_streams t)) (nr_request_id nr) = None"
      by (auto simp: wf_tracker_def delete_conv')
  qed
  have reg: "\<forall>(k, a) \<in> set (AList.delete rid (request_streams t)).
         a < length ?h \<and> request_id (?h ! a) = k \<and> \<not> finished (?h ! a)"
  proof (clarify)
    fix k a assume m: "(k, a) \<in> set (AList.delete rid (request_streams t))"
    then have in_rs: "(k, a) \<in> set (request_streams t)" and ne: "k \<noteq> rid"
      by (auto simp: AList.delete_eq)
    from wf_registered_inj [OF wf Some in_rs ne] have "a \<noteq> c" .
    with wf in_rs show "a < length ?h \<and> request_id (?h ! a) = k \<and> \<not> finished (?h ! a)"
      by (auto simp: wf_tracker_def)
  qed
  from wf have d1: "distinct (map fst (new_requests t))"
    and d2: "distinct (map fst (AList.delete rid (request_streams t)))"
    by (simp_all add: wf_tracker_def distinct_delete)
  show ?thesis
    unfolding eq wf_tracker_def using pend reg d1 d2 by simp
qed

lemma registered_unreferenced_after_abort:
  assumes wf: "wf_tracker t" and reg: "map_of (request_streams t) rid = Some c"
  shows "\<not> referenced (abort_request t rid e) c"
proof -
  have "c \<notin> fst ` set (new_requests t)"
    using wf_pending_not_registered [OF wf _ reg] by force
  moreover have "c \<notin> snd ` set (AList.delete rid (request_streams t))"
  proof
    assume "c \<in> snd ` set (AList.delete rid (request_streams t))"
    then obtain k where "(k, c) \<in> set (request_streams t)" and "k \<noteq> rid"
      by (auto simp: AList.delete_eq)
    from wf_registered_inj [OF wf reg this] show False by simp
  qed
  ultimately show ?thesis
    using reg by (simp add: referenced_def abort_request_def)
qed


lemma wf_fold_abort:
  "wf_tracker t \<Longrightarrow> wf_tracker (fold (\<lambda>rid t'. abort_request t' rid e) ks t)"
  by (induction ks arbitrary: t) (simp_all add: wf_abort_request)



lemma wf_add_request:
  assumes wf: "wf_tracker t" and add: "add_request t rid kw = Inr (a, t')"
  shows "wf_tracker t'"
proof -
  from add_request_Inr [OF add]
  have none: "map_of (request_streams t) rid = None" and a: "a = length (store t)"
    and t': "t' = t\<lparr>store := store t @ [AsyncStream_init rid],
               new_requests := new_requests t @ [(a, \<lparr>nr_request_id = rid, nr_kwargs = kw\<rparr>)],
               new_requests_event := True\<rparr>"
    by simp_all
  from wf have old: "\<forall>(b, n) \<in> set (new_requests t). b < length (store t)"
    by (auto simp: wf_tracker_def)
  then have fresh: "a \<notin> fst ` set (new_requests t)"
    using a by force
  from wf none fresh show ?thesis
    unfolding t' wf_tracker_def
    by (auto simp: nth_append a AsyncStream_init_def)
qed

subsection \<open>The invariant holds in every state the tracker's methods reach\<close>

lemma wf_process_request_output:
  assumes wf: "wf_tracker t"
  shows "wf_tracker (process_request_output t out)"
proof (cases "map_of (request_streams t) (out_request_id out)")
  case None
  with wf show ?thesis by (simp add: process_request_output_def)
next
  case (Some c)
  let ?rid = "out_request_id out"
  let ?s = "if out_finished out then finish None (put (Item out) (store t ! c))
            else put (Item out) (store t ! c)"
  let ?h = "(store t)[c := ?s]"
  let ?rs = "if out_finished out then AList.delete ?rid (request_streams t) else request_streams t"
  have eq: "process_request_output t out = t\<lparr>request_streams := ?rs, store := ?h\<rparr>"
    using Some by (simp add: process_request_output_def)
  from wf_registered [OF wf Some] have c: "c < length (store t)" "request_id (store t ! c) = ?rid"
    "\<not> finished (store t ! c)" by simp_all
  have sub: "set ?rs \<subseteq> set (request_streams t)"
    by (auto simp: AList.delete_eq)
  have pend: "\<forall>(a, nr) \<in> set (new_requests t).
         a < length ?h \<and> request_id (?h ! a) = nr_request_id nr
         \<and> \<not> finished (?h ! a) \<and> queue (?h ! a) = []
         \<and> map_of ?rs (nr_request_id nr) = None"
  proof (clarify)
    fix a nr assume m: "(a, nr) \<in> set (new_requests t)"
    from wf_pending_not_registered [OF wf m Some] have "a \<noteq> c" by simp
    with wf m show "a < length ?h \<and> request_id (?h ! a) = nr_request_id nr
         \<and> \<not> finished (?h ! a) \<and> queue (?h ! a) = []
         \<and> map_of ?rs (nr_request_id nr) = None"
      by (auto simp: wf_tracker_def delete_conv')
  qed
  have reg: "\<forall>(k, a) \<in> set ?rs.
         a < length ?h \<and> request_id (?h ! a) = k \<and> \<not> finished (?h ! a)"
  proof (clarify)
    fix k a assume m: "(k, a) \<in> set ?rs"
    with sub have in_rs: "(k, a) \<in> set (request_streams t)" by auto
    show "a < length ?h \<and> request_id (?h ! a) = k \<and> \<not> finished (?h ! a)"
    proof (cases "k = ?rid")
      case True
      with in_rs wf have "map_of (request_streams t) ?rid = Some a"
        by (simp add: wf_tracker_def)
      with Some have ac: "a = c" by simp
      from m True have nf: "\<not> out_finished out"
        by (auto simp: AList.delete_eq split: if_splits)
      with ac c True show ?thesis by (simp add: put_def)
    next
      case False
      from wf_registered_inj [OF wf Some in_rs False] have "a \<noteq> c" .
      with wf in_rs show ?thesis by (auto simp: wf_tracker_def)
    qed
  qed
  from wf have d1: "distinct (map fst (new_requests t))" and d2: "distinct (map fst ?rs)"
    by (simp_all add: wf_tracker_def distinct_delete)
  show ?thesis
    unfolding eq wf_tracker_def using pend reg d1 d2 by simp
qed

lemma drain_new_wf:
  assumes "\<forall>(k, c) \<in> set rs. c < length h \<and> request_id (h ! c) = k \<and> \<not> finished (h ! c)"
    and "\<forall>(b, n) \<in> set q. b < length h \<and> \<not> finished (h ! b)"
    and "distinct (map fst q)"
    and "fst ` set q \<inter> snd ` set rs = {}"
    and "distinct (map fst rs)"
  shows "(\<forall>(k, c) \<in> set (fst (snd (drain_new q h rs new fin))).
            c < length (fst (drain_new q h rs new fin))
            \<and> request_id (fst (drain_new q h rs new fin) ! c) = k
            \<and> \<not> finished (fst (drain_new q h rs new fin) ! c))
         \<and> distinct (map fst (fst (snd (drain_new q h rs new fin))))"
  using assms
proof (induction q arbitrary: h rs new fin)
  case Nil
  then show ?case by simp
next
  case (Cons p q)
  obtain a nr where p: "p = (a, nr)" by (cases p)
  from Cons.prems(3) p have aq: "a \<notin> fst ` set q" and dq: "distinct (map fst q)" by auto
  from Cons.prems(2) p have a: "a < length h" "\<not> finished (h ! a)" by auto
  from Cons.prems(4) p have ars: "a \<notin> snd ` set rs" and disj: "fst ` set q \<inter> snd ` set rs = {}"
    by auto
  show ?case
  proof (cases "request_id (h ! a) \<in> fin")
    case True
    let ?h = "h[a := finish (Some CancelledError) (h ! a)]"
    have 1: "\<forall>(k, c) \<in> set rs. c < length ?h \<and> request_id (?h ! c) = k \<and> \<not> finished (?h ! c)"
    proof (clarify)
      fix k c assume m: "(k, c) \<in> set rs"
      with ars have "c \<noteq> a" by force
      with Cons.prems(1) m show "c < length ?h \<and> request_id (?h ! c) = k \<and> \<not> finished (?h ! c)"
        by auto
    qed
    have 2: "\<forall>(b, n) \<in> set q. b < length ?h \<and> \<not> finished (?h ! b)"
    proof (clarify)
      fix b n assume m: "(b, n) \<in> set q"
      with aq have "b \<noteq> a" by force
      with Cons.prems(2) m show "b < length ?h \<and> \<not> finished (?h ! b)" by auto
    qed
    from Cons.IH [OF 1 2 dq disj Cons.prems(5), of new "fin - {request_id (h ! a)}"] True
    show ?thesis unfolding p by simp
  next
    case False
    let ?rs = "AList.update (request_id (h ! a)) a rs"
    have 1: "\<forall>(k, c) \<in> set ?rs. c < length h \<and> request_id (h ! c) = k \<and> \<not> finished (h ! c)"
      using Cons.prems(1) a by (auto dest: update_entries)
    have 2: "\<forall>(b, n) \<in> set q. b < length h \<and> \<not> finished (h ! b)"
      using Cons.prems(2) by simp
    have 4: "fst ` set q \<inter> snd ` set ?rs = {}"
    proof -
      have "snd ` set ?rs \<subseteq> insert a (snd ` set rs)"
        by (auto dest: update_entries)
      with aq disj show ?thesis by blast
    qed
    have 5: "distinct (map fst ?rs)"
      using Cons.prems(5) by (simp add: distinct_update)
    from Cons.IH [OF 1 2 dq 4 5, of "new @ [nr]" fin] False
    show ?thesis unfolding p by simp
  qed
qed

lemma wf_drain:
  assumes wf: "wf_tracker t"
  shows "wf_tracker (snd (get_new_and_aborted_requests t))"
proof -
  obtain h' rs' new' fin' where d:
    "drain_new (new_requests t) (store t) (request_streams t) []
       (drain_aborted (aborted_requests t) {}) = (h', rs', new', fin')"
    by (metis prod_cases4)
  note g = drain_unfold [OF d]
  have 1: "\<forall>(k, c) \<in> set (request_streams t).
             c < length (store t) \<and> request_id (store t ! c) = k \<and> \<not> finished (store t ! c)"
    using wf by (simp add: wf_tracker_def)
  have 2: "\<forall>(b, n) \<in> set (new_requests t). b < length (store t) \<and> \<not> finished (store t ! b)"
    using wf by (auto simp: wf_tracker_def)
  have 3: "distinct (map fst (new_requests t))" and 5: "distinct (map fst (request_streams t))"
    using wf by (simp_all add: wf_tracker_def)
  have 4: "fst ` set (new_requests t) \<inter> snd ` set (request_streams t) = {}"
  proof (rule ccontr)
    assume "fst ` set (new_requests t) \<inter> snd ` set (request_streams t) \<noteq> {}"
    then obtain a nr k where m: "(a, nr) \<in> set (new_requests t)" "(k, a) \<in> set (request_streams t)"
      by force
    from m(2) 5 have "map_of (request_streams t) k = Some a" by simp
    from wf_pending_not_registered [OF wf m(1) this] show False by simp
  qed
  from drain_new_wf [OF 1 2 3 4 5, of "[]" "drain_aborted (aborted_requests t) {}"] d
  show ?thesis
    unfolding g wf_tracker_def by simp
qed

lemma wf_run_call: "wf_tracker t \<Longrightarrow> wf_tracker (run_call c t)"
proof (cases c)
  case (AddRequest rid kw)
  assume wf: "wf_tracker t"
  show ?thesis
  proof (cases "add_request t rid kw")
    case (Inl e)
    with wf AddRequest show ?thesis by simp
  next
    case (Inr r)
    obtain a t' where r: "r = (a, t')" by (cases r)
    with Inr wf_add_request [OF wf, of rid kw a t'] AddRequest show ?thesis by simp
  qed
next
  case (AbortRequest rid e)
  assume "wf_tracker t"
  with AbortRequest show ?thesis by (simp add: wf_abort_request)
next
  case (ProcessRequestOutput out)
  assume "wf_tracker t"
  with ProcessRequestOutput show ?thesis by (simp add: wf_process_request_output)
next
  case (ProcessException rid e)
  assume "wf_tracker t"
  with ProcessException show ?thesis by (simp add: process_exception_def wf_abort_request)
next
  case (PropagateException e ro)
  assume "wf_tracker t"
  with PropagateException show ?thesis
    by (cases ro) (simp_all add: propagate_exception_def wf_abort_request wf_fold_abort)
next
  case GetNewAndAborted
  assume "wf_tracker t"
  with GetNewAndAborted show ?thesis by (simp add: wf_drain)
next
  case WaitForNewRequests
  assume "wf_tracker t"
  with WaitForNewRequests show ?thesis
    by (simp add: wait_for_new_requests_def wf_tracker_def)
qed

lemma wf_tracker_calls: "wf_tracker t \<Longrightarrow> wf_tracker (tracker_calls cs t)"
  by (induction cs arbitrary: t) (simp_all add: wf_run_call)

lemma wf_reachable: "wf_tracker (tracker_calls cs (RequestTracker_init h))"
  by (rule wf_tracker_calls) (rule wf_tracker_init)

section \<open>Proofs: the turns of \<open>engine_step\<close>\<close>

lemma tracker_calls_append:
  "tracker_calls (cs @ ds) t = tracker_calls ds (tracker_calls cs t)"
  by (induction cs arbitrary: t) simp_all

lemma fold_process_request_output_calls:
  "fold (\<lambda>request_output t'. process_request_output t' request_output) outs t =
     tracker_calls (map ProcessRequestOutput outs) t"
  by (induction outs arbitrary: t) simp_all

lemma add_request_async_start_raises:
  "add_request_async_start eng s = Inl e \<Longrightarrow>
     (\<exists>m. e = ValueError m) \<and> add_request_async x eng now s = Inl e"
  by (auto simp: add_request_async_start_def add_request_async_def
      split: option.splits if_splits)

lemma add_new_requests_Cons_raises:
  "add_request_async_start eng s = Inl (ValueError m) \<Longrightarrow>
     add_new_requests x eng (s # rest) aborted t =
       add_new_requests x eng rest aborted (process_exception t (nr_request_id s) (ValueError m))"
  by simp

lemma add_new_requests_Cons_suspends:
  "add_request_async_start eng s = Inr u \<Longrightarrow>
     add_new_requests x eng (s # rest) aborted t = (AddRequestAsync s rest aborted, eng, t)"
  by simp

lemma add_new_requests_calls:
  "\<exists>cs. snd (snd (add_new_requests x eng news aborted t)) = tracker_calls cs t"
proof (induction news arbitrary: t)
  case Nil
  have "snd (snd (add_new_requests x eng [] aborted t)) = tracker_calls [] t" by simp
  then show ?case by blast
next
  case (Cons s news)
  show ?case
  proof (cases "add_request_async_start eng s")
    case (Inr u)
    then have "snd (snd (add_new_requests x eng (s # news) aborted t)) = tracker_calls [] t"
      by simp
    then show ?thesis by blast
  next
    case (Inl e)
    from add_request_async_start_raises [OF Inl] obtain m where e: "e = ValueError m"
      by blast
    from Cons.IH [of "process_exception t (nr_request_id s) (ValueError m)"] obtain cs where
      cs: "snd (snd (add_new_requests x eng news aborted
                  (process_exception t (nr_request_id s) (ValueError m)))) =
           tracker_calls cs (process_exception t (nr_request_id s) (ValueError m))"
      by blast
    have "snd (snd (add_new_requests x eng (s # news) aborted t)) =
            tracker_calls (ProcessException (nr_request_id s) (ValueError m) # cs) t"
      using Inl e cs by simp
    then show ?thesis by blast
  qed
qed

lemma add_new_requests_not_done:
  "fst (add_new_requests x eng news aborted t) \<noteq> TaskDone result"
proof (induction news arbitrary: t)
  case Nil
  show ?case by simp
next
  case (Cons s news)
  show ?case
  proof (cases "add_request_async_start eng s")
    case (Inr u)
    then show ?thesis by simp
  next
    case (Inl e)
    from add_request_async_start_raises [OF Inl] obtain m where e: "e = ValueError m"
      by blast
    from Cons.IH [of "process_exception t (nr_request_id s) (ValueError m)"] Inl e
    show ?thesis by simp
  qed
qed


lemma engine_step_calls:
  "\<exists>cs. snd (snd (engine_step x now ve task eng t)) = tracker_calls cs t"
proof (cases task)
  case Created
  obtain new_reqs aborted t1 where
    g: "get_new_and_aborted_requests t = ((new_reqs, aborted), t1)"
    by (cases "get_new_and_aborted_requests t") auto
  from add_new_requests_calls [of x eng new_reqs aborted t1] obtain cs where
    "snd (snd (add_new_requests x eng new_reqs aborted t1)) = tracker_calls cs t1"
    by blast
  with g Created
  have "snd (snd (engine_step x now ve task eng t)) = tracker_calls (GetNewAndAborted # cs) t"
    by (simp add: engine_step_def)
  then show ?thesis by blast
next
  case (AddRequestAsync s rest aborted)
  show ?thesis
  proof (cases "add_request_async x eng now s")
    case (Inr eng1)
    from add_new_requests_calls [of x eng1 rest aborted t] obtain cs where
      "snd (snd (add_new_requests x eng1 rest aborted t)) = tracker_calls cs t"
      by blast
    with Inr AddRequestAsync
    have "snd (snd (engine_step x now ve task eng t)) = tracker_calls cs t"
      by (simp add: engine_step_def)
    then show ?thesis by blast
  next
    case (Inl e)
    show ?thesis
    proof (cases "\<exists>m. e = ValueError m")
      case True
      then obtain m where e: "e = ValueError m" by blast
      from add_new_requests_calls
        [of x eng rest aborted "process_exception t (nr_request_id s) (ValueError m)"]
      obtain cs where
        "snd (snd (add_new_requests x eng rest aborted
                    (process_exception t (nr_request_id s) (ValueError m)))) =
         tracker_calls cs (process_exception t (nr_request_id s) (ValueError m))"
        by blast
      with Inl e AddRequestAsync
      have "snd (snd (engine_step x now ve task eng t)) =
              tracker_calls (ProcessException (nr_request_id s) (ValueError m) # cs) t"
        by (simp add: engine_step_def)
      then show ?thesis by blast
    next
      case False
      with Inl AddRequestAsync
      have "snd (snd (engine_step x now ve task eng t)) = tracker_calls [] t"
        by (cases e) (simp_all add: engine_step_def)
      then show ?thesis by blast
    qed
  qed
next
  case StepAsync
  show ?thesis
  proof (cases "step_async x eng ve")
    case (Inl e)
    with StepAsync
    have "snd (snd (engine_step x now ve task eng t)) = tracker_calls [] t"
      by (simp add: engine_step_def)
    then show ?thesis by blast
  next
    case (Inr r)
    obtain outs eng1 where r: "r = (outs, eng1)" by (cases r)
    with Inr StepAsync
    have "snd (snd (engine_step x now ve task eng t)) =
            tracker_calls (map ProcessRequestOutput outs) t"
      by (simp add: engine_step_def fold_process_request_output_calls)
    then show ?thesis by blast
  qed
next
  case (TaskDone result)
  then have "snd (snd (engine_step x now ve task eng t)) = tracker_calls [] t"
    by (simp add: engine_step_def)
  then show ?thesis by blast
qed

lemma wf_engine_step:
  assumes "wf_tracker t"
  shows "wf_tracker (snd (snd (engine_step x now ve task eng t)))"
proof -
  from engine_step_calls [of x now ve task eng t] obtain cs where
    "snd (snd (engine_step x now ve task eng t)) = tracker_calls cs t"
    by blast
  with wf_tracker_calls [OF assms, of cs] show ?thesis by simp
qed

lemma unref_engine_step:
  assumes "\<not> referenced t a" and "a < length (store t)"
  shows "store (snd (snd (engine_step x now ve task eng t))) ! a = store t ! a"
proof -
  from engine_step_calls [of x now ve task eng t] obtain cs where
    "snd (snd (engine_step x now ve task eng t)) = tracker_calls cs t"
    by blast
  with unref_tracker_calls [OF assms, of cs] show ?thesis by simp
qed

text \<open>
  After the drain the stream of a queued request is the stream registered under the
  request's id, when no other queued request carries the id and no abort of it is queued.
\<close>

lemma drained_request_registered:
  assumes wf: "wf_tracker t"
    and pending: "(a, s) \<in> set (new_requests t)"
    and uniq: "\<forall>(b, n) \<in> set (new_requests t). nr_request_id n = nr_request_id s \<longrightarrow> b = a"
    and noabort: "nr_request_id s \<notin> set (aborted_requests t)"
  shows "s \<in> set (fst (fst (get_new_and_aborted_requests t)))
         \<and> map_of (request_streams (snd (get_new_and_aborted_requests t))) (nr_request_id s)
             = Some a
         \<and> store (snd (get_new_and_aborted_requests t)) ! a = store t ! a"
proof -
  obtain h' rs' new' fin' where d:
    "drain_new (new_requests t) (store t) (request_streams t) []
       (drain_aborted (aborted_requests t) {}) = (h', rs', new', fin')"
    by (metis prod_cases4)
  note g = drain_unfold [OF d]
  from wf pending have fresh: "request_id (store t ! a) = nr_request_id s"
    by (auto simp: wf_tracker_def)
  from wf have dist: "distinct (map fst (new_requests t))"
    by (simp add: wf_tracker_def)
  from noabort have nofin: "nr_request_id s \<notin> drain_aborted (aborted_requests t) {}"
    by (simp add: drain_aborted_set)
  from drain_new_registered [OF d wf_pend_ok [OF wf] dist pending nofin uniq]
  have 1: "s \<in> set new'" and 2: "map_of rs' (nr_request_id s) = Some a"
    by simp_all
  have 3: "h' ! a = store t ! a"
    using drain_new_store_frame [of "store t" a "drain_aborted (aborted_requests t) {}"
        "new_requests t" "request_streams t" "[]"] nofin fresh d
    by simp
  show ?thesis
    unfolding g using 1 2 3 by simp
qed

lemma process_exception_registered:
  assumes wf: "wf_tracker t" and reg: "map_of (request_streams t) rid = Some a"
  shows "store (process_exception t rid e) ! a =
           \<lparr>request_id = rid, queue = queue (store t ! a) @ [Raise e], finished = True\<rparr>"
    and "map_of (request_streams (process_exception t rid e)) rid = None"
    and "\<forall>b. b \<noteq> a \<longrightarrow> store (process_exception t rid e) ! b = store t ! b"
    and "\<forall>k. k \<noteq> rid \<longrightarrow>
           map_of (request_streams (process_exception t rid e)) k = map_of (request_streams t) k"
    and "new_requests (process_exception t rid e) = new_requests t"
    and "\<forall>cs. store (tracker_calls cs (process_exception t rid e)) ! a =
           \<lparr>request_id = rid, queue = queue (store t ! a) @ [Raise e], finished = True\<rparr>"
proof -
  from wf_registered [OF wf reg]
  have len: "a < length (store t)" and rid: "request_id (store t ! a) = rid"
    and nf: "\<not> finished (store t ! a)"
    by simp_all
  show 1: "store (process_exception t rid e) ! a =
           \<lparr>request_id = rid, queue = queue (store t ! a) @ [Raise e], finished = True\<rparr>"
    using reg len rid nf by (simp add: process_exception_def abort_request_def finish_def)
  show "map_of (request_streams (process_exception t rid e)) rid = None"
    using reg by (simp add: process_exception_def abort_request_def delete_conv')
  show "\<forall>b. b \<noteq> a \<longrightarrow> store (process_exception t rid e) ! b = store t ! b"
    using reg by (simp add: process_exception_def abort_request_def)
  show "\<forall>k. k \<noteq> rid \<longrightarrow>
           map_of (request_streams (process_exception t rid e)) k = map_of (request_streams t) k"
    using reg by (simp add: process_exception_def abort_request_def delete_conv')
  show "new_requests (process_exception t rid e) = new_requests t"
    using reg by (simp add: process_exception_def abort_request_def)
  have un: "\<not> referenced (process_exception t rid e) a"
    using registered_unreferenced_after_abort [OF wf reg, of "Some e"]
    by (simp add: process_exception_def)
  have len': "a < length (store (process_exception t rid e))"
    using reg len by (simp add: process_exception_def abort_request_def)
  show "\<forall>cs. store (tracker_calls cs (process_exception t rid e)) ! a =
           \<lparr>request_id = rid, queue = queue (store t ! a) @ [Raise e], finished = True\<rparr>"
    using unref_tracker_calls [OF un len'] 1 by simp
qed








lemma lora_disabled_raises_at_once:
  assumes "lora_config eng = None" and "lora_request (nr_kwargs s) = Some l"
  shows "add_request_async_start eng s =
           Inl (ValueError (''Got lora_request '' @ l @ '' but LoRA is not enabled!''))"
  using assms by (simp add: add_request_async_start_def)

text \<open>
  C6 (as amended). A submit that supplies an adapter does not fail for it: with the loop
  running and the id not registered in \<open>request_streams\<close>, \<open>add_request\<close> returns the request's
  stream, open and empty, and queues the request. When \<open>engine_step\<close> hands the queued request
  to \<open>add_request_async\<close> of an engine that has no LoRA configuration, the adapter check
  raises its \<open>ValueError\<close> at once, before anything is awaited; it is caught there, the task
  goes on with the requests that follow and is not done by it. If the request's stream is
  then the stream registered under its id, the tracker being in a state its methods reach,
  the error is appended to that stream as its terminator and the stream is finished,
  whatever is called on the tracker afterwards.
\<close>

theorem C6_adapter_error_arrives_on_stream:
  assumes run: "is_running self"
    and tr: "request_tracker self = Some t"
    and unknown: "map_of (request_streams t) rid = None"
    and nolora: "lora_config eng = None"
    and wf: "wf_tracker t2"
    and reg: "map_of (request_streams t2) rid = Some (length (store t))"
  shows "\<exists>t' s.
           AsyncAphrodite_add_request now self rid inp par arr (Some l) pa
             = (Inr (length (store t)), self\<lparr>request_tracker := Some t'\<rparr>)
           \<and> store t' ! length (store t) = AsyncStream_init rid
           \<and> generator (queue (store t' ! length (store t))) = ([], Waiting)
           \<and> new_requests t' = new_requests t @ [(length (store t), s)]
           \<and> nr_request_id s = rid
           \<and> lora_request (nr_kwargs s) = Some l
           \<and> add_request_async_start eng s =
               Inl (ValueError (''Got lora_request '' @ l @ '' but LoRA is not enabled!''))
           \<and> add_new_requests x eng (s # rest) aborted t2 =
               add_new_requests x eng rest aborted
                 (process_exception t2 rid
                    (ValueError (''Got lora_request '' @ l @ '' but LoRA is not enabled!'')))
           \<and> (\<forall>result. fst (add_new_requests x eng (s # rest) aborted t2) \<noteq> TaskDone result)
           \<and> store (process_exception t2 rid
                       (ValueError (''Got lora_request '' @ l @ '' but LoRA is not enabled!'')))
                 ! length (store t) =
               \<lparr>request_id = rid,
                queue = queue (store t2 ! length (store t))
                          @ [Raise (ValueError
                                      (''Got lora_request '' @ l @ '' but LoRA is not enabled!''))],
                finished = True\<rparr>
           \<and> (\<forall>cs. store (tracker_calls cs
                               (process_exception t2 rid
                                  (ValueError
                                     (''Got lora_request '' @ l @ '' but LoRA is not enabled!''))))
                      ! length (store t) =
                    \<lparr>request_id = rid,
                     queue = queue (store t2 ! length (store t))
                               @ [Raise (ValueError
                                           (''Got lora_request '' @ l
                                              @ '' but LoRA is not enabled!''))],
                     finished = True\<rparr>)"
proof -
  let ?kw = "\<lparr>inputs = inp, params = par,
              arrival_time = Some (case arr of None \<Rightarrow> now | Some a \<Rightarrow> if a = 0 then now else a),
              lora_request = Some l, prompt_adapter_request = pa\<rparr>"
  let ?s = "\<lparr>nr_request_id = rid, nr_kwargs = ?kw\<rparr>"
  let ?a = "length (store t)"
  let ?e = "ValueError (''Got lora_request '' @ l @ '' but LoRA is not enabled!'')"
  define t' where "t' = t\<lparr>store := store t @ [AsyncStream_init rid],
               new_requests := new_requests t @ [(?a, ?s)],
               new_requests_event := True\<rparr>"
  have add: "add_request t rid ?kw = Inr (?a, t')"
    using unknown by (simp add: add_request_def t'_def)
  have sub: "AsyncAphrodite_add_request now self rid inp par arr (Some l) pa
               = (Inr ?a, self\<lparr>request_tracker := Some t'\<rparr>)"
    using run tr add by (simp add: AsyncAphrodite_add_request_def)
  have st: "store t' ! ?a = AsyncStream_init rid"
    by (simp add: t'_def)
  have gen: "generator (queue (store t' ! ?a)) = ([], Waiting)"
    by (simp add: st AsyncStream_init_def)
  have pend: "new_requests t' = new_requests t @ [(?a, ?s)]"
    by (simp add: t'_def)
  have start: "add_request_async_start eng ?s = Inl ?e"
    using lora_disabled_raises_at_once [OF nolora, of ?s l] by simp
  have goes: "add_new_requests x eng (?s # rest) aborted t2 =
                add_new_requests x eng rest aborted (process_exception t2 rid ?e)"
    using add_new_requests_Cons_raises [OF start, of x rest aborted t2] by simp
  have notdone: "\<forall>result. fst (add_new_requests x eng (?s # rest) aborted t2) \<noteq> TaskDone result"
    by (simp only: add_new_requests_not_done not_False_eq_True simp_thms)
  note p = process_exception_registered [OF wf reg, of ?e]
  have "AsyncAphrodite_add_request now self rid inp par arr (Some l) pa
             = (Inr ?a, self\<lparr>request_tracker := Some t'\<rparr>)
           \<and> store t' ! ?a = AsyncStream_init rid
           \<and> generator (queue (store t' ! ?a)) = ([], Waiting)
           \<and> new_requests t' = new_requests t @ [(?a, ?s)]
           \<and> nr_request_id ?s = rid
           \<and> lora_request (nr_kwargs ?s) = Some l
           \<and> add_request_async_start eng ?s = Inl ?e
           \<and> add_new_requests x eng (?s # rest) aborted t2 =
               add_new_requests x eng rest aborted (process_exception t2 rid ?e)
           \<and> (\<forall>result. fst (add_new_requests x eng (?s # rest) aborted t2) \<noteq> TaskDone result)
           \<and> store (process_exception t2 rid ?e) ! ?a =
               \<lparr>request_id = rid, queue = queue (store t2 ! ?a) @ [Raise ?e], finished = True\<rparr>
           \<and> (\<forall>cs. store (tracker_calls cs (process_exception t2 rid ?e)) ! ?a =
                    \<lparr>request_id = rid, queue = queue (store t2 ! ?a) @ [Raise ?e],
                     finished = True\<rparr>)"
    using sub st gen pend start goes notdone p(1) p(6) by simp
  then show ?thesis by blast
qed

theorem C6_adapter_error_witness:
  "AsyncAphrodite_add_request 5 running_supervisor ''r1'' ''hi'' ''p'' None (Some ''adapter'') None
     = (Inr 0, running_supervisor\<lparr>request_tracker := Some adapter_submitted\<rparr>)
   \<and> store adapter_submitted ! 0 = AsyncStream_init ''r1''
   \<and> fst (engine_step example_ext 6 0 Created example_engine adapter_submitted) = StepAsync
   \<and> store (snd (snd (engine_step example_ext 6 0 Created example_engine adapter_submitted))) ! 0
       = \<lparr>request_id = ''r1'',
          queue = [Raise (ValueError ''Got lora_request adapter but LoRA is not enabled!'')],
          finished = True\<rparr>"
proof -
  let ?e = "ValueError (''Got lora_request '' @ ''adapter'' @ '' but LoRA is not enabled!'')"
  have 1: "is_running running_supervisor"
    by (simp add: running_supervisor_def is_running_def task_done_def)
  have 2: "request_tracker running_supervisor = Some (RequestTracker_init [])"
    by (simp add: running_supervisor_def)
  have 3: "map_of (request_streams (RequestTracker_init [])) ''r1'' = None"
    by (simp add: RequestTracker_init_def)
  have 4: "lora_config example_engine = None"
    by (simp add: example_engine_eq)
  have 5: "wf_tracker r1_registered"
    by (simp add: r1_registered_def wf_tracker_def AsyncStream_init_def)
  have 6: "map_of (request_streams r1_registered) ''r1''
             = Some (length (store (RequestTracker_init [])))"
    by (simp add: r1_registered_def RequestTracker_init_def)
  from C6_adapter_error_arrives_on_stream [OF 1 2 3 4 5 6,
      of 5 "''hi''" "''p''" None "''adapter''" None example_ext "[]" "{}"]
  obtain t' s where
    a: "AsyncAphrodite_add_request 5 running_supervisor ''r1'' ''hi'' ''p'' None
          (Some ''adapter'') None
        = (Inr (length (store (RequestTracker_init []))),
           running_supervisor\<lparr>request_tracker := Some t'\<rparr>)"
    and b: "new_requests t' =
              new_requests (RequestTracker_init [])
                @ [(length (store (RequestTracker_init [])), s)]"
    and c: "add_new_requests example_ext example_engine (s # []) {} r1_registered =
              add_new_requests example_ext example_engine [] {}
                (process_exception r1_registered ''r1'' ?e)"
    and d: "store (process_exception r1_registered ''r1'' ?e)
              ! length (store (RequestTracker_init [])) =
            \<lparr>request_id = ''r1'',
             queue = queue (store r1_registered ! length (store (RequestTracker_init [])))
                       @ [Raise ?e],
             finished = True\<rparr>"
    by blast
  have e: "AsyncAphrodite_add_request 5 running_supervisor ''r1'' ''hi'' ''p'' None
             (Some ''adapter'') None
           = (Inr 0, running_supervisor\<lparr>request_tracker := Some adapter_submitted\<rparr>)"
    using 1 by (simp add: AsyncAphrodite_add_request_def running_supervisor_def add_request_def
        RequestTracker_init_def adapter_submitted_def adapter_request_def)
  from a e have t': "t' = adapter_submitted"
    by (simp add: running_supervisor_def)
  from b t' have s: "s = adapter_request"
    by (simp add: adapter_submitted_def RequestTracker_init_def)
  have f: "engine_step example_ext 6 0 Created example_engine adapter_submitted =
             add_new_requests example_ext example_engine [adapter_request] {} r1_registered"
    by (simp add: engine_step_def adapter_submitted_def get_new_and_aborted_requests_def
        r1_registered_def AsyncStream_init_def del: add_new_requests.simps)
  have g: "engine_step example_ext 6 0 Created example_engine adapter_submitted =
             (StepAsync, example_engine, process_exception r1_registered ''r1'' ?e)"
    using c unfolding s f by simp
  have h: "store (process_exception r1_registered ''r1'' ?e) ! 0 =
             \<lparr>request_id = ''r1'', queue = [Raise ?e], finished = True\<rparr>"
    using d by (simp add: RequestTracker_init_def r1_registered_def AsyncStream_init_def)
  have i: "store adapter_submitted ! 0 = AsyncStream_init ''r1''"
    by (simp add: adapter_submitted_def)
  from e i g h show ?thesis
    by simp
qed

text \<open>
  The claim as stated fails: with no LoRA configuration, a submit that supplies an adapter
  returns a stream and raises nothing.
\<close>

theorem C6_submit_accepted_counterexample:
  "is_running running_supervisor
   \<and> lora_config (engine running_supervisor) = None
   \<and> fst (AsyncAphrodite_add_request 5 running_supervisor ''r1'' ''hi'' ''p'' None
            (Some ''adapter'') None) = Inr 0
   \<and> request_tracker (snd (AsyncAphrodite_add_request 5 running_supervisor ''r1'' ''hi'' ''p'' None
            (Some ''adapter'') None)) =
       Some \<lparr>store = [\<lparr>request_id = ''r1'', queue = [], finished = False\<rparr>],
             request_streams = [], aborted_requests = [],
             new_requests =
               [(0, \<lparr>nr_request_id = ''r1'',
                     nr_kwargs = \<lparr>inputs = ''hi'', params = ''p'', arrival_time = Some 5,
                                  lora_request = Some ''adapter'',
                                  prompt_adapter_request = None\<rparr>\<rparr>)],
             new_requests_event = True\<rparr>"
  by (simp add: running_supervisor_def is_running_def task_done_def example_engine_eq
      AsyncAphrodite_add_request_def add_request_def RequestTracker_init_def AsyncStream_init_def)

subsection \<open>The invariant holds after every turn of another task\<close>

lemma wf_AsyncAphrodite_add_request:
  assumes "\<forall>t. request_tracker self = Some t \<longrightarrow> wf_tracker t"
  shows "\<forall>t. request_tracker (snd (AsyncAphrodite_add_request now self rid inp par arr lora pa))
               = Some t \<longrightarrow> wf_tracker t"
proof -
  have step: "\<And>self1. \<forall>t. request_tracker self1 = Some t \<longrightarrow> wf_tracker t \<Longrightarrow>
    \<forall>t. request_tracker
           (snd (case request_tracker self1 of
                   None \<Rightarrow> (Inl AttributeError, self1)
                 | Some t \<Rightarrow>
                     (case add_request t rid
                             \<lparr>inputs = inp, params = par,
                              arrival_time =
                                Some (case arr of None \<Rightarrow> now
                                      | Some a \<Rightarrow> if a = 0 then now else a),
                              lora_request = lora, prompt_adapter_request = pa\<rparr> of
                        Inl e \<Rightarrow> (Inl e, self1)
                      | Inr (a, t') \<Rightarrow> (Inr a, self1\<lparr>request_tracker := Some t'\<rparr>)))) = Some t
         \<longrightarrow> wf_tracker t"
    by (auto split: option.splits sum.splits dest: wf_add_request)
  show ?thesis
  proof (cases "\<not> is_running self \<and> start_engine_loop self")
    case False
    with step [OF assms] assms show ?thesis
      by (auto simp: AsyncAphrodite_add_request_def)
  next
    case True
    show ?thesis
    proof (cases "start_background_loop self")
      case (Inl e)
      with True assms show ?thesis
        by (simp add: AsyncAphrodite_add_request_def)
    next
      case (Inr self1)
      then have "\<forall>t. request_tracker self1 = Some t \<longrightarrow> wf_tracker t"
        by (auto simp: start_background_loop_def wf_tracker_init split: if_splits)
      from step [OF this] True Inr show ?thesis
        by (simp add: AsyncAphrodite_add_request_def)
    qed
  qed
qed

lemma wf_AsyncAphrodite_abort:
  assumes "\<forall>t. request_tracker self = Some t \<longrightarrow> wf_tracker t"
  shows "\<forall>t. request_tracker (snd (AsyncAphrodite_abort self rid)) = Some t \<longrightarrow> wf_tracker t"
  using assms
  by (auto simp: AsyncAphrodite_abort_def wf_abort_request split: option.splits)

lemma wf_run_turn:
  assumes "\<forall>t. request_tracker self = Some t \<longrightarrow> wf_tracker t"
  shows "\<forall>t. request_tracker (fst (run_turn x now turn (self, requests_in_progress))) = Some t
               \<longrightarrow> wf_tracker t"
proof (cases turn)
  case (Resumes ve)
  show ?thesis
  proof (cases "request_tracker self")
    case None
    with Resumes show ?thesis by simp
  next
    case (Some t)
    with assms have "wf_tracker t" by simp
    from wf_engine_step [OF this, of x now ve "requests_in_progress ! ve" "engine self"]
      Resumes Some assms
    show ?thesis
      by (auto simp: split_def)
  qed
next
  case (Submits rid inp par arr lora pa)
  with wf_AsyncAphrodite_add_request [OF assms] show ?thesis by simp
next
  case (Aborts rid)
  with wf_AsyncAphrodite_abort [OF assms] show ?thesis by simp
qed

lemma wf_run_turns:
  assumes "\<forall>t. request_tracker self = Some t \<longrightarrow> wf_tracker t"
  shows "\<forall>t. request_tracker (fst (run_turns x now turns (self, requests_in_progress))) = Some t
               \<longrightarrow> wf_tracker t"
  using assms
proof (induction turns arbitrary: self requests_in_progress)
  case Nil
  then show ?case by (simp add: run_turns_def)
next
  case (Cons turn turns)
  obtain self1 rip1 where r: "run_turn x now turn (self, requests_in_progress) = (self1, rip1)"
    by (cases "run_turn x now turn (self, requests_in_progress)") auto
  from wf_run_turn [OF Cons.prems, of x now turn requests_in_progress] r
  have "\<forall>t. request_tracker self1 = Some t \<longrightarrow> wf_tracker t" by simp
  from Cons.IH [OF this, of rip1] r show ?case
    by (simp add: run_turns_def)
qed

section \<open>Proofs: the watchdog of \<open>run_engine_loop\<close>\<close>






end
